theory Spec2Isabelle
  imports Main "HOL-Library.Word"
begin

unbundle bit_operations_syntax

section \<open>Data model\<close>

text \<open>
  Bytes (\<^verbatim>\<open>unsigned char\<close>) are 8-bit words. Pointers to subscribers, as returned by
  \<^verbatim>\<open>malloc\<close> in \<^verbatim>\<open>find_subscriber\<close>, are indices into the list of allocated subscribers;
  \<^verbatim>\<open>NULL\<close> is \<open>None\<close>. A byte pointer handed to a function is the list of bytes found at
  that address; the length the C code passes beside it stays a separate argument.
\<close>

type_synonym byte = "8 word"

text \<open>
  Modelled from the spec: \<^verbatim>\<open>SID_SIZE\<close> and \<^verbatim>\<open>BROADCAST_LEN\<close> are macros of \<^verbatim>\<open>serval.h\<close>, which is
  not among the sources; node IDs are 32 bytes and broadcast identifiers 8 bytes
  (spec, section 3).
\<close>

definition SID_SIZE :: nat where
  "SID_SIZE = 32"

definition BROADCAST_LEN :: nat where
  "BROADCAST_LEN = 8"

text \<open>
  Modelled from the spec: the \<^verbatim>\<open>REACHABLE_*\<close> flags are macros of \<^verbatim>\<open>overlay_address.h\<close>, which is
  not among the sources. Section 3 of the spec makes \<^verbatim>\<open>reachable\<close> a bitset over NONE, SELF,
  DIRECT, INDIRECT, UNICAST, BROADCAST and ASSUMED in which UNICAST and BROADCAST imply
  DIRECT: DIRECT is the mask of the two direct modes, and the other flags are single bits.
\<close>

definition REACHABLE_NONE :: int where
  "REACHABLE_NONE = 0"

definition REACHABLE_SELF :: int where
  "REACHABLE_SELF = 1"

definition REACHABLE_BROADCAST :: int where
  "REACHABLE_BROADCAST = 2"

definition REACHABLE_UNICAST :: int where
  "REACHABLE_UNICAST = 4"

definition REACHABLE_INDIRECT :: int where
  "REACHABLE_INDIRECT = 8"

definition REACHABLE_ASSUMED :: int where
  "REACHABLE_ASSUMED = 16"

definition REACHABLE_DIRECT :: int where
  "REACHABLE_DIRECT = REACHABLE_BROADCAST OR REACHABLE_UNICAST"

text \<open>
  Modelled from the spec: the interface states are macros of \<^verbatim>\<open>serval.h\<close>, which is not among
  the sources; an interface is UP, DOWN or in some other state (spec, section 6).
\<close>

definition INTERFACE_STATE_UP :: int where
  "INTERFACE_STATE_UP = 1"

definition INTERFACE_STATE_DOWN :: int where
  "INTERFACE_STATE_DOWN = 2"

record overlay_interface =
  state :: int

text \<open>
  \<^verbatim>\<open>struct subscriber\<close> is declared in \<^verbatim>\<open>overlay_address.h\<close>; the record has the fields that
  \<^verbatim>\<open>overlay_address.c\<close> reads and writes. \<^verbatim>\<open>next_hop\<close> points to a subscriber and
  \<^verbatim>\<open>interface\<close> into the interface table.
\<close>

record subscriber =
  sid :: "byte list"
  abbreviate_len :: nat
  send_full :: bool
  reachable :: int
  next_hop :: "nat option"
  interface :: "nat option"

text \<open>
  A \<^verbatim>\<open>struct tree_node\<close> has 16 slots. Bit \<open>n\<close> of \<^verbatim>\<open>is_tree\<close> tells whether slot \<open>n\<close> of the
  union is read as \<^verbatim>\<open>tree_nodes[n]\<close> or as \<^verbatim>\<open>subscribers[n]\<close>: a slot whose bit is set is
  \<open>Child\<close>, a slot whose bit is clear is \<open>Empty\<close> when the pointer is \<^verbatim>\<open>NULL\<close> and \<open>Leaf\<close>
  otherwise. Tree nodes are owned by their parent slot and never shared, so a node is the
  list of its slots.
\<close>

datatype slot = Empty | Leaf nat | Child "slot list"

type_synonym tree_node = "slot list"

record directory =
  root :: tree_node
  subscribers :: "subscriber list"

section \<open>The subscriber tree\<close>

definition get_nibble :: "byte list \<Rightarrow> nat \<Rightarrow> byte" where
  "get_nibble bytes pos =
     (let byte = bytes ! (pos div 2);
          byte = (if even pos then drop_bit 4 byte else byte)
      in byte AND 0xF)"

text \<open>\<open>memcmp a b n\<close> is the test \<^verbatim>\<open>memcmp(a, b, n) != 0\<close> (also \<^verbatim>\<open>bcmp\<close>).\<close>

definition memcmp :: "byte list \<Rightarrow> byte list \<Rightarrow> nat \<Rightarrow> bool" where
  "memcmp a b n = (take n a \<noteq> take n b)"

text \<open>A node or subscriber fresh from \<^verbatim>\<open>malloc\<close> and \<^verbatim>\<open>memset(..., 0, ...)\<close>.\<close>

definition new_tree_node :: tree_node where
  "new_tree_node = replicate 16 Empty"

definition new_subscriber :: "byte list \<Rightarrow> nat \<Rightarrow> subscriber" where
  "new_subscriber s pos =
     \<lparr>sid = take SID_SIZE s, abbreviate_len = pos, send_full = False,
      reachable = 0, next_hop = None, interface = None\<rparr>"

text \<open>
  The \<^verbatim>\<open>do ... while (pos < len*2)\<close> loop of \<^verbatim>\<open>find_subscriber\<close>, from the node \<open>ptr\<close> at
  nibble position \<open>pos\<close>. One call is one run of the loop body; \<open>pos1\<close> is \<open>pos\<close> after
  \<^verbatim>\<open>pos++\<close>. The tree below \<open>ptr\<close> is returned updated, with the subscribers and the
  pointer the C function returns.
\<close>

function find_node ::
  "byte list \<Rightarrow> nat \<Rightarrow> bool \<Rightarrow> tree_node \<Rightarrow> nat \<Rightarrow> subscriber list
     \<Rightarrow> tree_node \<times> subscriber list \<times> nat option" where
  "find_node s len create ptr pos subs =
     (let nibble = unat (get_nibble s pos); pos1 = pos + 1 in
      case ptr ! nibble of
        Child t \<Rightarrow>
          if pos1 < len * 2 then
            (case find_node s len create t pos1 subs of
               (t', subs', r) \<Rightarrow> (ptr[nibble := Child t'], subs', r))
          else (ptr, subs, None)
      | Empty \<Rightarrow>
          if create then
            (ptr[nibble := Leaf (length subs)], subs @ [new_subscriber s pos1],
             Some (length subs))
          else (ptr, subs, None)
      | Leaf ret \<Rightarrow>
          if \<not> memcmp (sid (subs ! ret)) s len then (ptr, subs, Some ret)
          else if \<not> create then (ptr, subs, None)
          else
            (let new = new_tree_node[unat (get_nibble (sid (subs ! ret)) pos1) := Leaf ret];
                 subs1 = subs[ret := (subs ! ret)\<lparr>abbreviate_len := pos1 + 1\<rparr>]
             in if pos1 < len * 2 then
                  (case find_node s len create new pos1 subs1 of
                     (new', subs', r) \<Rightarrow> (ptr[nibble := Child new'], subs', r))
                else (ptr[nibble := Child new], subs1, None)))"
  by pat_completeness auto
termination
  by (relation "measure (\<lambda>(s, len, create, ptr, pos, subs). len * 2 - pos)") auto

definition find_subscriber ::
  "directory \<Rightarrow> byte list \<Rightarrow> nat \<Rightarrow> bool \<Rightarrow> directory \<times> nat option" where
  "find_subscriber d s len create =
     (let create = (if len \<noteq> SID_SIZE then False else create) in
      case find_node s len create (root d) 0 (subscribers d) of
        (r, subs, res) \<Rightarrow> (d\<lparr>root := r, subscribers := subs\<rparr>, res))"

text \<open>The directory at start-up: the static, zeroed \<^verbatim>\<open>root\<close> and no subscriber.\<close>

definition empty_directory :: directory where
  "empty_directory = \<lparr>root = new_tree_node, subscribers = []\<rparr>"

section \<open>Reachability\<close>

text \<open>
  \<^verbatim>\<open>subscriber_is_reachable\<close>. The recursive call is made only for a next hop whose stored
  \<^verbatim>\<open>reachable\<close> has a DIRECT bit, which is then not \<^verbatim>\<open>REACHABLE_INDIRECT\<close>, so the recursion
  is at most one call deep.
\<close>

function subscriber_is_reachable ::
  "overlay_interface list \<Rightarrow> subscriber list \<Rightarrow> nat option \<Rightarrow> int" where
  "subscriber_is_reachable ifs subs None = REACHABLE_NONE"
| "subscriber_is_reachable ifs subs (Some p) =
     (let ret0 = reachable (subs ! p);
          ret1 =
            (if ret0 = REACHABLE_INDIRECT then
               (case next_hop (subs ! p) of
                  None \<Rightarrow> REACHABLE_NONE
                | Some n \<Rightarrow>
                    if reachable (subs ! n) AND REACHABLE_DIRECT = 0 then REACHABLE_NONE
                    else
                      (let r = subscriber_is_reachable ifs subs (Some n) in
                       if r AND REACHABLE_ASSUMED \<noteq> 0 then REACHABLE_NONE
                       else if r AND REACHABLE_DIRECT = 0 then REACHABLE_NONE
                       else ret0))
             else ret0)
      in if ret1 AND REACHABLE_DIRECT \<noteq> 0 then
           (case interface (subs ! p) of
              None \<Rightarrow> REACHABLE_NONE
            | Some i \<Rightarrow>
                if state (ifs ! i) \<noteq> INTERFACE_STATE_UP then REACHABLE_NONE else ret1)
         else ret1)"
  by pat_completeness auto
termination
proof (relation "measure (\<lambda>(ifs, subs, q).
         case q of None \<Rightarrow> 0
         | Some p \<Rightarrow> if reachable (subs ! p) = REACHABLE_INDIRECT then 1 else 0)")
  show "wf (measure (\<lambda>(ifs :: overlay_interface list, subs :: subscriber list, q).
         case q of None \<Rightarrow> 0
         | Some p \<Rightarrow> if reachable (subs ! p) = REACHABLE_INDIRECT then (1::nat) else 0))"
    by simp
next
  fix ifs :: "overlay_interface list" and subs :: "subscriber list" and p n :: nat
    and x :: int
  assume a: "x = reachable (subs ! p)" "x = REACHABLE_INDIRECT"
    "reachable (subs ! n) AND REACHABLE_DIRECT \<noteq> 0"
  have "reachable (subs ! n) \<noteq> REACHABLE_INDIRECT"
  proof
    assume "reachable (subs ! n) = REACHABLE_INDIRECT"
    with a(3) show False
      by (simp add: REACHABLE_INDIRECT_def REACHABLE_DIRECT_def REACHABLE_BROADCAST_def
          REACHABLE_UNICAST_def)
  qed
  with a show "((ifs, subs, Some n), ifs, subs, Some p) \<in> measure (\<lambda>(ifs, subs, q).
         case q of None \<Rightarrow> 0
         | Some p \<Rightarrow> if reachable (subs ! p) = REACHABLE_INDIRECT then 1 else 0)"
    by simp
qed

section \<open>Broadcast packet identifiers\<close>

definition MAX_BPIS :: nat where
  "MAX_BPIS = 1024"

definition BPI_MASK :: int where
  "BPI_MASK = 0x3ff"

text \<open>
  One round of the hashing loop of \<^verbatim>\<open>overlay_broadcast_drop_check\<close> on the \<^verbatim>\<open>int\<close>
  \<^verbatim>\<open>bpi_index\<close>. The value stays below \<open>2 ^ 16\<close> (lemma \<open>bpi_step_bound\<close>), so the
  machine arithmetic never wraps.
\<close>

definition bpi_step :: "int \<Rightarrow> byte \<Rightarrow> int" where
  "bpi_step bpi_index b =
     ((push_bit 3 bpi_index AND 0xfff8) + (drop_bit 13 bpi_index AND 0x7)) XOR uint b"

definition bpi_hash :: "byte list \<Rightarrow> int" where
  "bpi_hash addr = foldl bpi_step 0 (take BROADCAST_LEN addr) AND BPI_MASK"

text \<open>The table \<^verbatim>\<open>bpilist\<close> is static, so it starts zeroed.\<close>

definition fresh_bpilist :: "byte list list" where
  "fresh_bpilist = replicate MAX_BPIS (replicate BROADCAST_LEN 0)"

definition overlay_broadcast_drop_check :: "byte list list \<Rightarrow> byte list \<Rightarrow> byte list list \<times> int" where
  "overlay_broadcast_drop_check bpilist addr =
     (let bpi_index = nat (bpi_hash addr) in
      if memcmp (bpilist ! bpi_index) addr BROADCAST_LEN then
        (bpilist[bpi_index := take BROADCAST_LEN addr], 0)
      else (bpilist, 1))"

text \<open>The hash as section 4.4 of the spec words it, with \<open>OR\<close> joining the two parts.\<close>

definition spec_bpi_step :: "int \<Rightarrow> byte \<Rightarrow> int" where
  "spec_bpi_step h b =
     ((push_bit 3 h AND 0xFFF8) OR (drop_bit 13 h AND 0x7)) XOR uint b"

definition spec_bpi_slot :: "byte list \<Rightarrow> int" where
  "spec_bpi_slot bpi = foldl spec_bpi_step 0 (take 8 bpi) AND 0x3FF"

section \<open>Overlay buffers and the decode context\<close>

text \<open>
  Modelled from the spec: the buffer primitives \<^verbatim>\<open>ob_append_byte\<close>, \<^verbatim>\<open>ob_append_bytes\<close>,
  \<^verbatim>\<open>ob_get\<close>, \<^verbatim>\<open>ob_get_bytes_ptr\<close>, \<^verbatim>\<open>ob_remaining\<close>, \<^verbatim>\<open>ob_new\<close> and \<^verbatim>\<open>ob_limitsize\<close> live in
  \<^verbatim>\<open>overlay_buffer.c\<close>, which is not among the sources (spec, section 6: \<open>append_byte\<close>,
  \<open>append_bytes\<close>, \<open>read_byte\<close>, \<open>read_bytes_ptr(len)\<close>, \<open>remaining\<close>, \<open>limit_size\<close>). A buffer
  holds the bytes written so far, a read position and an optional size limit; an append
  that would pass the limit fails with a non-zero result and writes nothing, a read past
  the end returns \<open>-1\<close> or \<^verbatim>\<open>NULL\<close>.
\<close>

record overlay_buffer =
  ob_bytes :: "byte list"
  ob_position :: nat
  ob_sizeLimit :: "nat option"

definition ob_new :: overlay_buffer where
  "ob_new = \<lparr>ob_bytes = [], ob_position = 0, ob_sizeLimit = None\<rparr>"

definition ob_limitsize :: "overlay_buffer \<Rightarrow> nat \<Rightarrow> overlay_buffer" where
  "ob_limitsize b n = b\<lparr>ob_sizeLimit := Some n\<rparr>"

definition ob_makespace :: "overlay_buffer \<Rightarrow> nat \<Rightarrow> bool" where
  "ob_makespace b n =
     (case ob_sizeLimit b of None \<Rightarrow> True | Some l \<Rightarrow> length (ob_bytes b) + n \<le> l)"

definition ob_append_byte :: "overlay_buffer \<Rightarrow> byte \<Rightarrow> overlay_buffer \<times> int" where
  "ob_append_byte b x =
     (if ob_makespace b 1 then (b\<lparr>ob_bytes := ob_bytes b @ [x]\<rparr>, 0) else (b, - 1))"

definition ob_append_bytes :: "overlay_buffer \<Rightarrow> byte list \<Rightarrow> nat \<Rightarrow> overlay_buffer \<times> int" where
  "ob_append_bytes b xs n =
     (if ob_makespace b n then (b\<lparr>ob_bytes := ob_bytes b @ take n xs\<rparr>, 0) else (b, - 1))"


definition ob_get :: "overlay_buffer \<Rightarrow> overlay_buffer \<times> int" where
  "ob_get b =
     (if ob_position b < length (ob_bytes b) then
        (b\<lparr>ob_position := ob_position b + 1\<rparr>, uint (ob_bytes b ! ob_position b))
      else (b, - 1))"

definition ob_get_bytes_ptr :: "overlay_buffer \<Rightarrow> nat \<Rightarrow> overlay_buffer \<times> byte list option" where
  "ob_get_bytes_ptr b n =
     (if ob_position b + n \<le> length (ob_bytes b) then
        (b\<lparr>ob_position := ob_position b + n\<rparr>, Some (take n (drop (ob_position b) (ob_bytes b))))
      else (b, None))"

text \<open>
  \<^verbatim>\<open>struct decode_context\<close> is declared in \<^verbatim>\<open>overlay_address.h\<close>; the record has the fields
  of section 9 of the spec that the address code uses. \<^verbatim>\<open>please_explain\<close> points to a frame
  of which only the payload buffer is used here.
\<close>

record decode_context =
  invalid_addresses :: bool
  please_explain :: "overlay_buffer option"
  sender :: "nat option"
  previous :: "nat option"

text \<open>A context after \<^verbatim>\<open>bzero\<close>.\<close>

definition zero_context :: decode_context where
  "zero_context =
     \<lparr>invalid_addresses = False, please_explain = None, sender = None, previous = None\<rparr>"

section \<open>Encoding an address\<close>

definition OA_CODE_SELF :: byte where
  "OA_CODE_SELF = 0xff"

definition OA_CODE_PREVIOUS :: byte where
  "OA_CODE_PREVIOUS = 0xfe"

text \<open>\<open>context->previous = subscriber\<close> under \<^verbatim>\<open>if (context)\<close>.\<close>

definition set_previous :: "decode_context option \<Rightarrow> nat \<Rightarrow> decode_context option" where
  "set_previous context p = map_option (\<lambda>c. c\<lparr>previous := Some p\<rparr>) context"

text \<open>
  \<^verbatim>\<open>overlay_address_append\<close>. The result is the return value with the context, the buffer
  and the subscribers as the call leaves them.
\<close>

definition overlay_address_append ::
  "decode_context option \<Rightarrow> overlay_buffer \<Rightarrow> nat option \<Rightarrow> subscriber list
     \<Rightarrow> int \<times> decode_context option \<times> overlay_buffer \<times> subscriber list" where
  "overlay_address_append context b subscriber subs =
     (case subscriber of
        None \<Rightarrow> (- 1, context, b, subs)
      | Some p \<Rightarrow>
          if (case context of None \<Rightarrow> False | Some c \<Rightarrow> sender c = Some p) then
            (case ob_append_byte b OA_CODE_SELF of
               (b1, rc) \<Rightarrow>
                 if rc \<noteq> 0 then (- 1, context, b1, subs)
                 else (0, set_previous context p, b1, subs))
          else if (case context of None \<Rightarrow> False | Some c \<Rightarrow> previous c = Some p) then
            (case ob_append_byte b OA_CODE_PREVIOUS of
               (b1, rc) \<Rightarrow>
                 if rc \<noteq> 0 then (- 1, context, b1, subs)
                 else (0, set_previous context p, b1, subs))
          else
            (let s = subs ! p;
                 len = (if send_full s then SID_SIZE
                        else
                          (let len = (abbreviate_len s + 2) div 2;
                               len = (if reachable s = REACHABLE_SELF then len + 1 else len)
                           in if len > SID_SIZE then SID_SIZE else len));
                 subs1 = (if send_full s then subs[p := s\<lparr>send_full := False\<rparr>] else subs)
             in case ob_append_byte b (of_nat len) of
                  (b1, rc) \<Rightarrow>
                    if rc \<noteq> 0 then (- 1, context, b1, subs1)
                    else
                      (case ob_append_bytes b1 (sid s) len of
                         (b2, rc) \<Rightarrow>
                           if rc \<noteq> 0 then (- 1, context, b2, subs1)
                           else (0, set_previous context p, b2, subs1))))"

section \<open>Walking the tree and explaining abbreviations\<close>

text \<open>
  \<^verbatim>\<open>walk_tree\<close>. \<open>walk_slots\<close> is the \<^verbatim>\<open>for (; i < e; i++)\<close> loop over the slots \<open>i\<close> to
  \<open>e - 1\<close> of the node; \<^verbatim>\<open>start\<close> is \<^verbatim>\<open>NULL\<close> from the second slot on. The callback works on a
  state of any type and returns whether the walk stops.
\<close>

function walk_tree ::
  "tree_node \<Rightarrow> nat \<Rightarrow> byte list option \<Rightarrow> nat \<Rightarrow> byte list option \<Rightarrow> nat
     \<Rightarrow> (nat \<Rightarrow> 'st \<Rightarrow> bool \<times> 'st) \<Rightarrow> 'st \<Rightarrow> bool \<times> 'st"
  and walk_slots ::
  "slot list \<Rightarrow> nat \<Rightarrow> byte list option \<Rightarrow> nat \<Rightarrow> byte list option \<Rightarrow> nat
     \<Rightarrow> (nat \<Rightarrow> 'st \<Rightarrow> bool \<times> 'st) \<Rightarrow> 'st \<Rightarrow> bool \<times> 'st" where
  "walk_tree node pos start start_len end end_len callback context =
     (let i = (case start of
                 Some st \<Rightarrow> if pos < start_len * 2 then unat (get_nibble st pos) else 0
               | None \<Rightarrow> 0);
          e = (case end of
                 Some en \<Rightarrow> if pos < end_len * 2 then unat (get_nibble en pos) + 1 else 16
               | None \<Rightarrow> 16)
      in walk_slots (drop i (take e node)) pos start start_len end end_len callback context)"
| "walk_slots [] pos start start_len end end_len callback context = (False, context)"
| "walk_slots (x # xs) pos start start_len end end_len callback context =
     (case x of
        Child t \<Rightarrow>
          (case walk_tree t (pos + 1) start start_len end end_len callback context of
             (True, context') \<Rightarrow> (True, context')
           | (False, context') \<Rightarrow>
               walk_slots xs pos None start_len end end_len callback context')
      | Leaf p \<Rightarrow>
          (case callback p context of
             (True, context') \<Rightarrow> (True, context')
           | (False, context') \<Rightarrow>
               walk_slots xs pos None start_len end end_len callback context')
      | Empty \<Rightarrow> walk_slots xs pos None start_len end end_len callback context)"
  by pat_completeness auto
termination
proof (relation "measure (\<lambda>x. case x of
          Inl (node, _) \<Rightarrow> 2 * size_list size node + 1
        | Inr (xs, _) \<Rightarrow> 2 * size_list size xs)")
  fix node :: tree_node and pos start_len end_len i e :: nat
    and st en :: "byte list option"
    and callback :: "nat \<Rightarrow> 'st \<Rightarrow> bool \<times> 'st" and ctx :: 'st
  have t: "size_list size (take k xs) \<le> size_list size xs" for k and xs :: "slot list"
  proof (induction xs arbitrary: k)
    case Nil
    show ?case by simp
  next
    case (Cons a xs)
    show ?case
      using Cons [of "k - 1"] by (cases k) simp_all
  qed
  have d: "size_list size (drop k xs) \<le> size_list size xs" for k and xs :: "slot list"
  proof (induction xs arbitrary: k)
    case Nil
    show ?case by simp
  next
    case (Cons a xs)
    show ?case
      using Cons [of "k - 1"] by (cases k) simp_all
  qed
  have "size_list size (drop i (take e node)) \<le> size_list size node"
    using d [of i "take e node"] t [of e node] by linarith
  then show "(Inr (drop i (take e node), pos, st, start_len, en, end_len, callback, ctx),
        Inl (node, pos, st, start_len, en, end_len, callback, ctx))
       \<in> measure (\<lambda>x. case x of
          Inl (node, _) \<Rightarrow> 2 * size_list size node + 1
        | Inr (xs, _) \<Rightarrow> 2 * size_list size xs)"
    by simp
qed auto

text \<open>
  \<^verbatim>\<open>add_explain_response\<close>, the callback of the walks below. Its state is the subscribers
  (it sets \<^verbatim>\<open>send_full\<close> on one of our own identities) and the context that collects the
  response.
\<close>

definition add_explain_response ::
  "nat \<Rightarrow> subscriber list \<times> decode_context \<Rightarrow> bool \<times> subscriber list \<times> decode_context" where
  "add_explain_response p st =
     (case st of
        (subs, response) \<Rightarrow>
          (let payload = (case please_explain response of
                            None \<Rightarrow> ob_limitsize ob_new 1024
                          | Some pl \<Rightarrow> pl);
               subs1 = (if reachable (subs ! p) = REACHABLE_SELF
                        then subs[p := (subs ! p)\<lparr>send_full := True\<rparr>] else subs)
           in case ob_append_byte payload (of_nat SID_SIZE) of
                (pl1, rc) \<Rightarrow>
                  if rc \<noteq> 0 then (True, subs1, response\<lparr>please_explain := Some pl1\<rparr>)
                  else
                    (case ob_append_bytes pl1 (sid (subs ! p)) SID_SIZE of
                       (pl2, rc) \<Rightarrow>
                         if rc \<noteq> 0 then (True, subs1, response\<lparr>please_explain := Some pl2\<rparr>)
                         else (False, subs1, response\<lparr>please_explain := Some pl2\<rparr>))))"

section \<open>Decoding an address\<close>

text \<open>
  \<^verbatim>\<open>find_subscr_buffer\<close> and \<^verbatim>\<open>overlay_address_parse\<close>. The argument \<open>out\<close> is the
  \<^verbatim>\<open>struct subscriber **subscriber\<close>: \<open>None\<close> when the caller passes \<^verbatim>\<open>NULL\<close>, otherwise the
  pointer the cell holds. \<^verbatim>\<open>MDP_MTU\<close> is a macro of \<^verbatim>\<open>serval.h\<close>, which is not among the
  sources, and is the parameter \<open>mdp_mtu\<close>. The result is \<open>None\<close> where the C code
  dereferences a \<^verbatim>\<open>NULL\<close> context or writes through a \<^verbatim>\<open>NULL\<close> \<open>subscriber\<close>; otherwise it is
  the return value with the context, the buffer, the cell and the directory as the call
  leaves them.
\<close>

definition find_subscr_buffer ::
  "nat \<Rightarrow> decode_context option \<Rightarrow> overlay_buffer \<Rightarrow> int \<Rightarrow> nat option option \<Rightarrow> directory
     \<Rightarrow> (int \<times> decode_context option \<times> overlay_buffer \<times> nat option option \<times> directory) option" where
  "find_subscr_buffer mdp_mtu context b len out d =
     (if len \<le> 0 \<or> len > int SID_SIZE then Some (- 1, context, b, out, d)
      else
        case ob_get_bytes_ptr b (nat len) of
          (b1, None) \<Rightarrow> Some (- 1, context, b1, out, d)
        | (b1, Some ident) \<Rightarrow>
            (case out of
               None \<Rightarrow>
                 (case context of
                    None \<Rightarrow> None
                  | Some c \<Rightarrow> Some (0, Some (c\<lparr>invalid_addresses := True\<rparr>), b1, out, d))
             | Some _ \<Rightarrow>
                 (case find_subscriber d ident (nat len) True of
                    (d1, Some p) \<Rightarrow> Some (0, set_previous context p, b1, Some (Some p), d1)
                  | (d1, None) \<Rightarrow>
                      (case context of
                         None \<Rightarrow> None
                       | Some c \<Rightarrow>
                           (let c1 = c\<lparr>invalid_addresses := True\<rparr>;
                                c2 = (case please_explain c1 of
                                        None \<Rightarrow> c1\<lparr>please_explain :=
                                                 Some (ob_limitsize ob_new mdp_mtu)\<rparr>
                                      | Some _ \<Rightarrow> c1)
                            in case walk_tree (root d1) 0 (Some ident) (nat len)
                                      (Some ident) (nat len) add_explain_response
                                      (subscribers d1, c2) of
                                 (stop, subs3, c3) \<Rightarrow>
                                   (case please_explain c3 of
                                      None \<Rightarrow> None
                                    | Some pl \<Rightarrow>
                                        (let pl1 = fst (ob_append_byte pl (word_of_int len));
                                             pl2 = fst (ob_append_bytes pl1 ident (nat len))
                                         in Some (0, Some (c3\<lparr>please_explain := Some pl2\<rparr>),
                                                  b1, Some None,
                                                  d1\<lparr>subscribers := subs3\<rparr>))))))))"

definition overlay_address_parse ::
  "nat \<Rightarrow> decode_context option \<Rightarrow> overlay_buffer \<Rightarrow> nat option option \<Rightarrow> directory
     \<Rightarrow> (int \<times> decode_context option \<times> overlay_buffer \<times> nat option option \<times> directory) option" where
  "overlay_address_parse mdp_mtu context b out d =
     (case ob_get b of
        (b1, len) \<Rightarrow>
          if len < 0 then Some (- 1, context, b1, out, d)
          else if len = uint OA_CODE_SELF then
            (case context of
               None \<Rightarrow> None
             | Some c \<Rightarrow>
                 (case sender c of
                    None \<Rightarrow> Some (0, Some (c\<lparr>invalid_addresses := True\<rparr>), b1, out, d)
                  | Some s \<Rightarrow>
                      (case out of
                         None \<Rightarrow> None
                       | Some _ \<Rightarrow>
                           Some (0, Some (c\<lparr>previous := Some s\<rparr>), b1, Some (Some s), d))))
          else if len = uint OA_CODE_PREVIOUS then
            (case context of
               None \<Rightarrow> None
             | Some c \<Rightarrow>
                 (case previous c of
                    None \<Rightarrow> Some (0, Some (c\<lparr>invalid_addresses := True\<rparr>), b1, out, d)
                  | Some s \<Rightarrow>
                      (case out of
                         None \<Rightarrow> None
                       | Some _ \<Rightarrow> Some (0, context, b1, Some (Some s), d))))
          else find_subscr_buffer mdp_mtu context b1 len out d)"

section \<open>Processing a request for explanation\<close>






section \<open>The address abbreviation cache\<close>

text \<open>
  The second source file holds the older abbreviation scheme. Its opcodes \<^verbatim>\<open>OA_CODE_*\<close>, the
  result codes \<^verbatim>\<open>OA_*\<close> and \<^verbatim>\<open>OVERLAY_ADDRESS_CACHE_SIZE\<close> are macros of \<^verbatim>\<open>mphlr.h\<close>, which is
  not among the sources: the opcodes are written as the numbers the comment at the top of
  the file gives them, the result codes are a datatype, and the cache size is a parameter.
  A call of \<^verbatim>\<open>exit\<close> is the result \<open>Exit\<close>.
\<close>

datatype oa_result = OA_UNSUPPORTED | OA_RESOLVED | OA_PLEASEEXPLAIN

datatype 'a proc = Exit | Return 'a

record overlay_address_cache =
  cache_size :: nat
  cache_shift :: nat
  cache_sids :: "byte list list"

text \<open>\<^verbatim>\<open>while (cache->size >> cache->shift) cache->shift++;\<close>\<close>

function cache_shift_loop :: "nat \<Rightarrow> nat \<Rightarrow> nat" where
  "cache_shift_loop n shift =
     (if drop_bit shift n \<noteq> 0 then cache_shift_loop n (shift + 1) else shift)"
  by pat_completeness auto
termination
proof (relation "measure (\<lambda>(n, shift). Suc n - shift)")
  show "wf (measure (\<lambda>(n :: nat, shift :: nat). Suc n - shift))"
    by simp
next
  fix n shift :: nat
  assume "drop_bit shift n \<noteq> 0"
  then have "2 ^ shift \<le> n"
    by (simp add: drop_bit_eq_div div_eq_0_iff not_less)
  moreover have "shift < 2 ^ shift"
    by (rule less_exp)
  ultimately have "shift < n"
    by linarith
  then show "((n, shift + 1), n, shift) \<in> measure (\<lambda>(n, shift). Suc n - shift)"
    by simp
qed

text \<open>
  The allocation block of \<^verbatim>\<open>overlay_abbreviate_cache_address\<close>, entered when the cache is
  not yet allocated and the configured size is not zero. Both \<^verbatim>\<open>calloc\<close> calls are taken to
  succeed.
\<close>

definition overlay_abbreviate_cache_alloc :: "int \<Rightarrow> overlay_address_cache proc" where
  "overlay_abbreviate_cache_alloc CACHE_SIZE =
     (if CACHE_SIZE > 0x1000000 then Exit
      else if CACHE_SIZE < 0 then Exit
      else
        (let n = nat CACHE_SIZE; shift = cache_shift_loop n 0 in
         if push_bit shift 1 \<noteq> n then Exit
         else Return \<lparr>cache_size = n, cache_shift = shift,
                      cache_sids = replicate n (replicate SID_SIZE 0)\<rparr>))"

text \<open>The line \<^verbatim>\<open>int index = ...\<close> of \<^verbatim>\<open>overlay_abbreviate_cache_address\<close>.\<close>

definition cache_address_index :: "overlay_address_cache \<Rightarrow> byte list \<Rightarrow> nat" where
  "cache_address_index cache s =
     nat (drop_bit (cache_shift cache)
            (push_bit 16 (uint (s ! 0)) OR push_bit 8 (uint (s ! 0)) OR uint (s ! 2)))"

definition overlay_abbreviate_cache_address ::
  "int \<Rightarrow> overlay_address_cache option \<Rightarrow> byte list
     \<Rightarrow> (int \<times> overlay_address_cache option) proc" where
  "overlay_abbreviate_cache_address CACHE_SIZE cache s =
     (case (if cache = None \<and> CACHE_SIZE \<noteq> 0
            then (case overlay_abbreviate_cache_alloc CACHE_SIZE of
                    Exit \<Rightarrow> Exit
                  | Return c \<Rightarrow> Return (Some c))
            else Return cache) of
        Exit \<Rightarrow> Exit
      | Return None \<Rightarrow> Return (0, None)
      | Return (Some c) \<Rightarrow>
          (let index = cache_address_index c s in
           if \<not> memcmp s (cache_sids c ! index) SID_SIZE then Return (1, Some c)
           else Return (0, Some (c\<lparr>cache_sids := (cache_sids c)[index := take SID_SIZE s]\<rparr>))))"

text \<open>\<^verbatim>\<open>bcopy(src, &dst[ofs], n)\<close> and \<^verbatim>\<open>memset(&dst[ofs], x, n)\<close>.\<close>

definition bcopy_at :: "byte list \<Rightarrow> byte list \<Rightarrow> nat \<Rightarrow> nat \<Rightarrow> byte list" where
  "bcopy_at src dst ofs n = take ofs dst @ take n src @ drop (ofs + n) dst"

definition memset_at :: "byte list \<Rightarrow> nat \<Rightarrow> byte \<Rightarrow> nat \<Rightarrow> byte list" where
  "memset_at dst ofs x n = take ofs dst @ replicate n x @ drop (ofs + n) dst"

text \<open>The line \<^verbatim>\<open>int index = ...\<close> of \<^verbatim>\<open>overlay_abbreviate_cache_lookup\<close>.\<close>

definition cache_lookup_index :: "overlay_address_cache \<Rightarrow> byte list \<Rightarrow> nat" where
  "cache_lookup_index cache inp =
     nat (drop_bit (cache_shift cache)
            (push_bit 16 (uint (inp ! 0)) OR push_bit 8 (uint (inp ! 0)) OR uint (inp ! 2)))"

text \<open>
  \<^verbatim>\<open>overlay_abbreviate_cache_lookup\<close>: the result code with \<^verbatim>\<open>out\<close> and \<^verbatim>\<open>*ofs\<close>. The argument
  \<open>cache\<close> is the global pointer \<^verbatim>\<open>cache\<close>, \<open>None\<close> when it is \<^verbatim>\<open>NULL\<close>. The function reads
  \<^verbatim>\<open>cache->shift\<close> without a test of the pointer, so with a \<^verbatim>\<open>NULL\<close> cache it dereferences
  \<^verbatim>\<open>NULL\<close>, which is the result \<open>None\<close>. \<^verbatim>\<open>overlay_abbreviate_remember_index\<close> only prints a
  message, and its value is dropped.
\<close>

definition overlay_abbreviate_cache_lookup ::
  "overlay_address_cache option \<Rightarrow> byte list \<Rightarrow> byte list \<Rightarrow> nat \<Rightarrow> nat \<Rightarrow> nat
     \<Rightarrow> (oa_result \<times> byte list \<times> nat) option" where
  "overlay_abbreviate_cache_lookup cache inp out ofs prefix_bytes index_bytes =
     (case cache of
        None \<Rightarrow> None
      | Some c \<Rightarrow>
          (let index = cache_lookup_index c inp in
           if memcmp inp (cache_sids c ! index) prefix_bytes then Some (OA_PLEASEEXPLAIN, out, ofs)
           else Some (OA_RESOLVED, bcopy_at (cache_sids c ! index) out ofs SID_SIZE,
                      ofs + SID_SIZE)))"

text \<open>
  \<^verbatim>\<open>overlay_abbreviate_expand_address\<close>: the result code with \<^verbatim>\<open>*inofs\<close>, \<^verbatim>\<open>out\<close> and \<^verbatim>\<open>*ofs\<close>.
  \<open>cache\<close> is the global pointer \<^verbatim>\<open>cache\<close> and \<open>prev\<close> is the global
  \<^verbatim>\<open>overlay_abbreviate_previous_address\<close>. The result is \<open>None\<close> where the lookup dereferences
  a \<^verbatim>\<open>NULL\<close> cache, \<open>Some Exit\<close> where the code calls \<^verbatim>\<open>exit\<close>, and otherwise \<open>Some (Return r)\<close>.
\<close>

definition overlay_abbreviate_expand_address ::
  "overlay_address_cache option \<Rightarrow> byte list \<Rightarrow> byte list \<Rightarrow> nat \<Rightarrow> byte list \<Rightarrow> nat
     \<Rightarrow> (oa_result \<times> nat \<times> byte list \<times> nat) proc option" where
  "overlay_abbreviate_expand_address cache prev inp inofs out ofs =
     (let c = inp ! 0 in
      if c = 0x00 \<or> c = 0x02 \<or> c = 0x04 \<or> c = 0x0c then
        Some (Return (OA_UNSUPPORTED, inofs + 1, out, ofs))
      else if c = 0x01 then Some Exit
      else if c = 0x03 then
        Some (Return (OA_RESOLVED, inofs + 1, bcopy_at prev out ofs SID_SIZE, ofs + SID_SIZE))
      else if c = 0x05 \<or> c = 0x09 then
        (let bytes = (if c = 0x09 then 1 else 0) in
         case overlay_abbreviate_cache_lookup cache inp out ofs 3 bytes of
           None \<Rightarrow> None
         | Some (r, out1, ofs1) \<Rightarrow> Some (Return (r, inofs + (3 + bytes), out1, ofs1)))
      else if c = 0x06 \<or> c = 0x0a then
        (let bytes = (if c = 0x0a then 1 else 0) in
         case overlay_abbreviate_cache_lookup cache inp out ofs 7 bytes of
           None \<Rightarrow> None
         | Some (r, out1, ofs1) \<Rightarrow> Some (Return (r, inofs + (7 + bytes), out1, ofs1)))
      else if c = 0x07 \<or> c = 0x0b \<or> c = 0x0d then
        (let bytes = (if c = 0x0b then 1 else 0);
             bytes = (if c = 0x0d then 2 else bytes) in
         case overlay_abbreviate_cache_lookup cache inp out ofs 11 bytes of
           None \<Rightarrow> None
         | Some (r, out1, ofs1) \<Rightarrow> Some (Return (r, inofs + (11 + bytes), out1, ofs1)))
      else if c = 0x0f then
        Some (Return (OA_RESOLVED, inofs + 1, memset_at out ofs 0xff SID_SIZE, ofs))
      else
        (let bytes = (if c = 0x08 then 1 else 0);
             bytes = (if c = 0x0e then 2 else bytes) in
         Some (Return (OA_RESOLVED, inofs + (SID_SIZE + bytes), bcopy_at inp out ofs SID_SIZE,
                       ofs))))"

section \<open>The invariant of the directory\<close>

text \<open>
  The result of a lookup: what \<^verbatim>\<open>find_subscriber\<close> returns when \<open>create\<close> is 0 (lemma
  \<open>find_node_False\<close> shows that such a call changes nothing).
\<close>

definition lookup_node ::
  "byte list \<Rightarrow> nat \<Rightarrow> tree_node \<Rightarrow> nat \<Rightarrow> subscriber list \<Rightarrow> nat option" where
  "lookup_node s len ptr pos subs = snd (snd (find_node s len False ptr pos subs))"

text \<open>The first \<open>n\<close> nibbles of a node ID, as slot numbers.\<close>

definition nibbles :: "byte list \<Rightarrow> nat \<Rightarrow> nat list" where
  "nibbles s n = map (\<lambda>i. unat (get_nibble s i)) [0..<n]"

text \<open>
  \<open>slot_inv subs path x\<close>: the slot \<open>x\<close>, reached from the root through the slot numbers
  \<open>path\<close>, is well formed. A leaf points to an allocated subscriber whose node ID starts
  with the nibbles \<open>path\<close>; a child node has 16 slots, lies less than 64 levels deep, and
  its slots are well formed.
\<close>

function slot_inv :: "subscriber list \<Rightarrow> nat list \<Rightarrow> slot \<Rightarrow> bool" where
  "slot_inv subs path Empty = True"
| "slot_inv subs path (Leaf p) =
     (p < length subs \<and> nibbles (sid (subs ! p)) (length path) = path)"
| "slot_inv subs path (Child t) =
     (length t = 16 \<and> length path < 64 \<and>
      (\<forall>i < length t. slot_inv subs (path @ [i]) (t ! i)))"
  by pat_completeness auto
termination
proof (relation "measure (\<lambda>(subs, path, x). size x)")
  show "wf (measure (\<lambda>(subs :: subscriber list, path :: nat list, x :: slot). size x))"
    by simp
next
  fix subs :: "subscriber list" and path :: "nat list" and t :: "slot list" and i :: nat
  assume "i < length t"
  then have "t ! i \<in> set t"
    by simp
  then have "size (t ! i) \<le> size_list size t"
    by (simp add: size_list_estimation')
  then show "((subs, path @ [i], t ! i), subs, path, Child t)
               \<in> measure (\<lambda>(subs, path, x). size x)"
    by simp
qed

definition node_inv :: "subscriber list \<Rightarrow> nat list \<Rightarrow> tree_node \<Rightarrow> bool" where
  "node_inv subs path node =
     (length node = 16 \<and> length path < 64 \<and>
      (\<forall>i < length node. slot_inv subs (path @ [i]) (node ! i)))"

text \<open>
  \<open>dir_inv\<close>: the tree is well formed, every allocated subscriber has a 32-byte node ID,
  and looking up that node ID in full returns the subscriber.
\<close>

definition dir_inv :: "directory \<Rightarrow> bool" where
  "dir_inv d =
     (node_inv (subscribers d) [] (root d) \<and>
      (\<forall>q < length (subscribers d).
         length (sid (subscribers d ! q)) = 32 \<and>
         lookup_node (sid (subscribers d ! q)) 32 (root d) 0 (subscribers d) = Some q))"

text \<open>
  \<open>dir_reach I d\<close>: the program can bring the directory into the state \<open>d\<close>, and \<open>I\<close> is
  the set of node IDs inserted so far. The directory starts empty; subscribers are added
  by \<^verbatim>\<open>find_subscriber\<close> with a full node ID and \<open>create\<close> set, and never removed; the rest of
  the program writes the fields \<^verbatim>\<open>send_full\<close>, \<^verbatim>\<open>reachable\<close>, \<^verbatim>\<open>next_hop\<close> and \<^verbatim>\<open>interface\<close> of
  allocated subscribers.
\<close>

inductive dir_reach :: "byte list set \<Rightarrow> directory \<Rightarrow> bool" where
  start: "dir_reach {} empty_directory"
| inserted: "dir_reach I d \<Longrightarrow> length s = SID_SIZE \<Longrightarrow>
     dir_reach (insert s I) (fst (find_subscriber d s SID_SIZE True))"
| updated: "dir_reach I d \<Longrightarrow> p < length (subscribers d) \<Longrightarrow>
     dir_reach I (d\<lparr>subscribers := (subscribers d)[p := (subscribers d ! p)
        \<lparr>send_full := f, reachable := r, next_hop := h, interface := i\<rparr>]\<rparr>)"

section \<open>The subscribers a walk visits\<close>






section \<open>Scenario data\<close>

text \<open>
  The subscribers of scenario 6 of the spec (section 8): \<open>A\<close>, \<open>B\<close> and \<open>C\<close> at the pointers
  0, 1 and 2, with \<open>A\<close> routed through \<open>B\<close> and \<open>B\<close> through \<open>C\<close>.
\<close>

definition scen_subs :: "subscriber list" where
  "scen_subs =
     [(new_subscriber (0x10 # replicate 31 0) 1)\<lparr>reachable := REACHABLE_INDIRECT, next_hop := Some 1\<rparr>,
      (new_subscriber (0x20 # replicate 31 0) 1)\<lparr>reachable := REACHABLE_INDIRECT, next_hop := Some 2\<rparr>,
      (new_subscriber (0x30 # replicate 31 0) 1)\<lparr>reachable := REACHABLE_DIRECT OR REACHABLE_UNICAST,
         interface := Some 0\<rparr>]"

text \<open>
  A directory that holds one subscriber, \<open>10 00 ...\<close>, whose \<^verbatim>\<open>send_full\<close> flag has been set.
\<close>

definition scen_sid :: "byte list" where
  "scen_sid = 0x10 # 0x00 # replicate 30 0"

definition scen_full_dir :: directory where
  "scen_full_dir =
     (let d = fst (find_subscriber empty_directory scen_sid SID_SIZE True) in
      d\<lparr>subscribers := (subscribers d)[0 := (subscribers d ! 0)
           \<lparr>send_full := True, reachable := REACHABLE_NONE, next_hop := None,
            interface := None\<rparr>]\<rparr>)"






section \<open>Properties of the subscriber tree\<close>

declare find_node.simps [simp del]

lemma byte_nibbles_eq:
  fixes x y :: byte
  assumes "drop_bit 4 x AND 0xF = drop_bit 4 y AND 0xF" and "x AND 0xF = y AND 0xF"
  shows "x = y"
proof (rule bit_eqI)
  fix n
  have m: "(0xF :: byte) = mask 4"
    by (simp add: mask_eq_exp_minus_1)
  have lo: "bit (x AND mask 4) n = bit (y AND mask 4) n"
    using assms(2) unfolding m by simp
  have hi: "bit (drop_bit 4 x AND mask 4) (n - 4) = bit (drop_bit 4 y AND mask 4) (n - 4)"
    using assms(1) unfolding m by simp
  consider "n < 4" | "4 \<le> n" "n < 8" | "8 \<le> n"
    by linarith
  then show "bit x n = bit y n"
  proof cases
    case 1
    with lo show ?thesis
      by (simp add: bit_and_iff bit_mask_iff)
  next
    case 2
    then have "n - 4 < 4" "4 + (n - 4) = n"
      by simp_all
    with hi show ?thesis
      by (simp add: bit_and_iff bit_mask_iff bit_drop_bit_eq)
  next
    case 3
    have "\<not> bit x n" "\<not> bit y n"
      using 3 bit_imp_le_length [of x n] bit_imp_le_length [of y n] by auto
    then show ?thesis
      by simp
  qed
qed

lemma nibble_lt_16: "unat (get_nibble s i) < 16"
proof -
  have "get_nibble s i \<le> 0xF"
    by (simp add: get_nibble_def Let_def word_and_le1)
  then show ?thesis
    by (simp add: word_le_nat_alt)
qed

lemma get_nibble_even: "get_nibble s (2 * j) = drop_bit 4 (s ! j) AND 0xF"
  by (simp add: get_nibble_def)

lemma get_nibble_odd: "get_nibble s (2 * j + 1) = (s ! j) AND 0xF"
  by (simp add: get_nibble_def)

lemma nibbles_eq_imp_eq:
  assumes "length a = n" and "length b = n"
    and "\<forall>i < 2 * n. get_nibble a i = get_nibble b i"
  shows "a = b"
proof (rule nth_equalityI)
  show "length a = length b"
    using assms by simp
next
  fix j
  assume "j < length a"
  then have j: "2 * j < 2 * n" "2 * j + 1 < 2 * n"
    using assms(1) by simp_all
  have "get_nibble a (2 * j) = get_nibble b (2 * j)"
    "get_nibble a (2 * j + 1) = get_nibble b (2 * j + 1)"
    using assms(3) j by blast+
  then have "drop_bit 4 (a ! j) AND 0xF = drop_bit 4 (b ! j) AND 0xF"
    "(a ! j) AND 0xF = (b ! j) AND 0xF"
    unfolding get_nibble_even get_nibble_odd .
  then show "a ! j = b ! j"
    by (rule byte_nibbles_eq)
qed

lemma find_node_Empty:
  assumes "ptr ! unat (get_nibble s pos) = Empty"
  shows "find_node s len create ptr pos subs =
           (if create then
              (ptr[unat (get_nibble s pos) := Leaf (length subs)],
               subs @ [new_subscriber s (pos + 1)], Some (length subs))
            else (ptr, subs, None))"
  using assms by (subst find_node.simps) (simp add: Let_def)

lemma find_node_Child:
  assumes "ptr ! unat (get_nibble s pos) = Child t"
  shows "find_node s len create ptr pos subs =
           (if pos + 1 < len * 2 then
              (case find_node s len create t (pos + 1) subs of
                 (t', subs', r) \<Rightarrow> (ptr[unat (get_nibble s pos) := Child t'], subs', r))
            else (ptr, subs, None))"
  using assms by (subst find_node.simps) (simp add: Let_def)

lemma find_node_Leaf:
  assumes "ptr ! unat (get_nibble s pos) = Leaf ret"
  shows "find_node s len create ptr pos subs =
           (if \<not> memcmp (sid (subs ! ret)) s len then (ptr, subs, Some ret)
            else if \<not> create then (ptr, subs, None)
            else
              (let new = new_tree_node[unat (get_nibble (sid (subs ! ret)) (pos + 1)) := Leaf ret];
                   subs1 = subs[ret := (subs ! ret)\<lparr>abbreviate_len := pos + 1 + 1\<rparr>]
               in if pos + 1 < len * 2 then
                    (case find_node s len create new (pos + 1) subs1 of
                       (new', subs', r) \<Rightarrow> (ptr[unat (get_nibble s pos) := Child new'], subs', r))
                  else (ptr[unat (get_nibble s pos) := Child new], subs1, None)))"
  using assms by (subst find_node.simps) (simp add: Let_def)

text \<open>A lookup (\<open>create = False\<close>) changes nothing.\<close>

lemma find_node_lookup:
  "\<not> create \<Longrightarrow> \<exists>r. find_node s len create ptr pos subs = (ptr, subs, r)"
proof (induction s len create ptr pos subs rule: find_node.induct)
  case (1 s len create ptr pos subs)
  show ?case
  proof (cases "ptr ! unat (get_nibble s pos)")
    case Empty
    then show ?thesis
      using "1.prems" by (simp add: find_node_Empty)
  next
    case (Leaf ret)
    then show ?thesis
      using "1.prems" by (simp add: find_node_Leaf)
  next
    case (Child t)
    show ?thesis
    proof (cases "pos + 1 < len * 2")
      case True
      obtain r where "find_node s len create t (pos + 1) subs = (t, subs, r)"
        using "1.IH"(2) [OF refl refl Child True "1.prems"] by blast
      moreover have "ptr[unat (get_nibble s pos) := Child t] = ptr"
        using Child list_update_id [of ptr "unat (get_nibble s pos)"] by simp
      ultimately show ?thesis
        using Child True by (simp add: find_node_Child)
    next
      case False
      then show ?thesis
        using Child by (simp add: find_node_Child)
    qed
  qed
qed

lemma find_node_False: "find_node s len False ptr pos subs = (ptr, subs, lookup_node s len ptr pos subs)"
  using find_node_lookup [of False s len ptr pos subs] by (auto simp add: lookup_node_def)

lemma lookup_node_Empty:
  "ptr ! unat (get_nibble s pos) = Empty \<Longrightarrow> lookup_node s len ptr pos subs = None"
  by (simp add: lookup_node_def find_node_Empty)

lemma lookup_node_Leaf:
  "ptr ! unat (get_nibble s pos) = Leaf ret \<Longrightarrow>
     lookup_node s len ptr pos subs = (if \<not> memcmp (sid (subs ! ret)) s len then Some ret else None)"
  by (simp add: lookup_node_def find_node_Leaf)

lemma lookup_node_Child:
  assumes "ptr ! unat (get_nibble s pos) = Child t"
  shows "lookup_node s len ptr pos subs =
           (if pos + 1 < len * 2 then lookup_node s len t (pos + 1) subs else None)"
proof -
  obtain r where r: "find_node s len False t (pos + 1) subs = (t, subs, r)"
    using find_node_lookup [of False s len t "pos + 1" subs] by blast
  show ?thesis
    unfolding lookup_node_def find_node_Child [OF assms] using r by simp
qed

lemma lookup_induct [case_names step]:
  assumes "\<And>ptr pos. (\<And>t. ptr ! unat (get_nibble s pos) = Child t \<Longrightarrow> pos + 1 < len * 2
              \<Longrightarrow> P t (pos + 1)) \<Longrightarrow> P ptr pos"
  shows "P ptr pos"
proof (induction "len * 2 - pos" arbitrary: ptr pos rule: less_induct)
  case less
  show ?case
  proof (rule assms)
    fix t
    assume "ptr ! unat (get_nibble s pos) = Child t" and "pos + 1 < len * 2"
    then show "P t (pos + 1)"
      by (intro less) simp
  qed
qed

lemma get_nibble_take: "pos < 2 * n \<Longrightarrow> get_nibble (take n a) pos = get_nibble a pos"
  by (simp add: get_nibble_def)

lemma ambiguous_prefix:
  assumes "lookup_node a la ptr pos subs = Some pa"
    and "lookup_node b lb ptr pos subs = Some pb"
    and "pa \<noteq> pb"
    and "\<forall>i < 2 * n. get_nibble a i = get_nibble b i"
    and "pos < 2 * n" and "n \<le> la" and "n \<le> lb"
  shows "lookup_node (take n a) n ptr pos subs = None"
  using assms(1,2,5)
proof (induction ptr pos rule: lookup_induct [where s = "take n a" and len = n])
  case (step ptr pos)
  have na: "get_nibble (take n a) pos = get_nibble a pos"
    using step.prems(3) by (rule get_nibble_take)
  have nb: "get_nibble b pos = get_nibble a pos"
    using step.prems(3) assms(4) by simp
  show ?case
  proof (cases "ptr ! unat (get_nibble a pos)")
    case Empty
    then show ?thesis
      using step.prems(1) by (simp add: lookup_node_Empty)
  next
    case (Leaf ret)
    then have "pa = ret" "pb = ret"
      using step.prems(1,2) nb by (simp_all add: lookup_node_Leaf split: if_splits)
    then show ?thesis
      using assms(3) by simp
  next
    case (Child t)
    show ?thesis
    proof (cases "pos + 1 < n * 2")
      case True
      then have "lookup_node a la t (pos + 1) subs = Some pa"
        "lookup_node b lb t (pos + 1) subs = Some pb"
        using step.prems(1,2) nb Child assms(6,7)
        by (simp_all add: lookup_node_Child split: if_splits)
      then have "lookup_node (take n a) n t (pos + 1) subs = None"
        using True Child na by (intro step.IH) simp_all
      then show ?thesis
        using Child na True by (simp add: lookup_node_Child)
    next
      case False
      then show ?thesis
        using Child na by (simp add: lookup_node_Child)
    qed
  qed
qed

lemma slot_inv_mono:
  "slot_inv subs path x \<Longrightarrow> length subs \<le> length subs' \<Longrightarrow>
     \<forall>q < length subs. sid (subs' ! q) = sid (subs ! q) \<Longrightarrow> slot_inv subs' path x"
proof (induction subs path x rule: slot_inv.induct)
  case (1 subs path)
  show ?case by simp
next
  case (2 subs path p)
  then show ?case
    by simp
next
  case (3 subs path t)
  then show ?case
    by simp
qed

lemma node_inv_mono:
  "node_inv subs path node \<Longrightarrow> length subs \<le> length subs' \<Longrightarrow>
     \<forall>q < length subs. sid (subs' ! q) = sid (subs ! q) \<Longrightarrow> node_inv subs' path node"
  unfolding node_inv_def using slot_inv_mono by blast

lemma node_inv_Child:
  "node_inv subs path node \<Longrightarrow> i < 16 \<Longrightarrow> node ! i = Child t \<Longrightarrow> node_inv subs (path @ [i]) t"
  unfolding node_inv_def by (metis slot_inv.simps(3))

lemma lookup_subs_cong:
  assumes "\<forall>q < length subs. sid (subs' ! q) = sid (subs ! q)"
  shows "node_inv subs path ptr \<Longrightarrow> lookup_node k len ptr pos subs' = lookup_node k len ptr pos subs"
proof (induction ptr pos arbitrary: path rule: lookup_induct [where s = k and len = len])
  case (step ptr pos)
  let ?n = "unat (get_nibble k pos)"
  have n: "?n < 16"
    by (rule nibble_lt_16)
  show ?case
  proof (cases "ptr ! ?n")
    case Empty
    then show ?thesis
      by (simp add: lookup_node_Empty)
  next
    case (Leaf ret)
    have "slot_inv subs (path @ [?n]) (Leaf ret)"
      using step.prems n Leaf unfolding node_inv_def by metis
    then have "ret < length subs"
      by simp
    then show ?thesis
      using Leaf assms by (simp add: lookup_node_Leaf)
  next
    case (Child t)
    have t: "node_inv subs (path @ [?n]) t"
      using step.prems n Child by (rule node_inv_Child)
    show ?thesis
    proof (cases "pos + 1 < len * 2")
      case True
      then show ?thesis
        using Child step.IH [OF Child True t] by (simp add: lookup_node_Child)
    next
      case False
      then show ?thesis
        using Child by (simp add: lookup_node_Child)
    qed
  qed
qed

lemma nibbles_Suc: "nibbles s (Suc n) = nibbles s n @ [unat (get_nibble s n)]"
  by (simp add: nibbles_def)

lemma length_nibbles [simp]: "length (nibbles s n) = n"
  by (simp add: nibbles_def)

lemma nibbles_eq_iff: "nibbles a n = nibbles b n \<longleftrightarrow> (\<forall>i < n. get_nibble a i = get_nibble b i)"
  by (induction n) (auto simp add: nibbles_Suc less_Suc_eq nibbles_def word_unat_eq_iff)

lemma get_nibble_take_eq:
  assumes "take n a = take n b" and "pos < 2 * n"
  shows "get_nibble a pos = get_nibble b pos"
  using get_nibble_take [OF assms(2), of a] get_nibble_take [OF assms(2), of b] assms(1) by simp

lemma lookup_other_slot:
  assumes inv: "node_inv subs path ptr"
    and sids: "\<forall>q < length subs. sid (subs' ! q) = sid (subs ! q)"
    and same: "ptr' ! unat (get_nibble k pos) = ptr ! unat (get_nibble k pos)"
  shows "lookup_node k len ptr' pos subs' = lookup_node k len ptr pos subs"
proof -
  let ?n = "unat (get_nibble k pos)"
  have n: "?n < 16"
    by (rule nibble_lt_16)
  show ?thesis
  proof (cases "ptr ! ?n")
    case Empty
    then show ?thesis
      using same by (simp add: lookup_node_Empty)
  next
    case (Leaf ret)
    have "slot_inv subs (path @ [?n]) (Leaf ret)"
      using inv n Leaf unfolding node_inv_def by metis
    then have "ret < length subs"
      by simp
    then show ?thesis
      using Leaf same sids by (simp add: lookup_node_Leaf)
  next
    case (Child t)
    have "node_inv subs (path @ [?n]) t"
      using inv n Child by (rule node_inv_Child)
    then have "lookup_node k len t (pos + 1) subs' = lookup_node k len t (pos + 1) subs"
      using sids by (intro lookup_subs_cong)
    then show ?thesis
      using Child same by (simp add: lookup_node_Child)
  qed
qed

lemma node_inv_update:
  assumes inv: "node_inv subs (nibbles s pos) ptr"
    and len: "length subs \<le> length subs'"
    and sids: "\<forall>q < length subs. sid (subs' ! q) = sid (subs ! q)"
    and new: "slot_inv subs' (nibbles s (Suc pos)) x"
  shows "node_inv subs' (nibbles s pos) (ptr[unat (get_nibble s pos) := x])"
proof -
  let ?n = "unat (get_nibble s pos)"
  have l: "length ptr = 16" "pos < 64"
    using inv by (simp_all add: node_inv_def)
  have "slot_inv subs' (nibbles s pos @ [i]) (ptr[?n := x] ! i)" if "i < 16" for i
  proof (cases "i = ?n")
    case True
    then show ?thesis
      using new l that by (simp add: nibbles_Suc)
  next
    case False
    have "slot_inv subs (nibbles s pos @ [i]) (ptr ! i)"
      using inv that by (simp add: node_inv_def)
    then show ?thesis
      using False len sids by (simp add: slot_inv_mono)
  qed
  then show ?thesis
    using l by (simp add: node_inv_def)
qed

lemma find_node_insert:
  assumes "node_inv subs (nibbles s pos) ptr"
    and "length s = 32"
    and "\<forall>q < length subs. length (sid (subs ! q)) = 32"
  shows "\<exists>ptr' subs' p.
           find_node s 32 True ptr pos subs = (ptr', subs', Some p) \<and>
           node_inv subs' (nibbles s pos) ptr' \<and>
           length subs \<le> length subs' \<and>
           (\<forall>q < length subs. sid (subs' ! q) = sid (subs ! q)) \<and>
           (\<forall>q < length subs'. length (sid (subs' ! q)) = 32) \<and>
           p < length subs' \<and> sid (subs' ! p) = s \<and>
           (length subs' = length subs \<or> length subs' = Suc (length subs) \<and> p = length subs) \<and>
           lookup_node s 32 ptr' pos subs' = Some p \<and>
           (\<forall>k q. lookup_node k 32 ptr pos subs = Some q
                  \<longrightarrow> lookup_node k 32 ptr' pos subs' = Some q)"
  using assms
proof (induction s "32 :: nat" True ptr pos subs rule: find_node.induct)
  case (1 s ptr pos subs)
  let ?n = "unat (get_nibble s pos)"
  let ?path = "nibbles s pos"
  have n: "?n < 16"
    by (rule nibble_lt_16)
  have inv: "node_inv subs ?path ptr"
    by (rule "1.prems"(1))
  have l: "length ptr = 16" "pos < 64"
    using inv by (simp_all add: node_inv_def)
  have slot: "slot_inv subs (nibbles s (Suc pos)) (ptr ! ?n)"
    using inv n by (simp add: node_inv_def nibbles_Suc)
  have s32: "length s = 32"
    by (rule "1.prems"(2))
  have all32: "\<forall>q < length subs. length (sid (subs ! q)) = 32"
    by (rule "1.prems"(3))
  show ?case
  proof (cases "ptr ! ?n")
    case Empty
    let ?subs' = "subs @ [new_subscriber s (pos + 1)]"
    let ?ptr' = "ptr[?n := Leaf (length subs)]"
    have sids: "\<forall>q < length subs. sid (?subs' ! q) = sid (subs ! q)"
      by (simp add: nth_append)
    have newsid: "sid (?subs' ! length subs) = s"
      using s32 by (simp add: new_subscriber_def SID_SIZE_def)
    have res: "find_node s 32 True ptr pos subs = (?ptr', ?subs', Some (length subs))"
      using Empty by (simp add: find_node_Empty)
    have "slot_inv ?subs' (nibbles s (Suc pos)) (Leaf (length subs))"
      using newsid by simp
    then have inv': "node_inv ?subs' ?path ?ptr'"
      using inv sids by (intro node_inv_update) simp_all
    have all32': "\<forall>q < length ?subs'. length (sid (?subs' ! q)) = 32"
      using all32 newsid s32 by (simp add: nth_append less_Suc_eq)
    have found: "lookup_node s 32 ?ptr' pos ?subs' = Some (length subs)"
      using l n newsid by (simp add: lookup_node_Leaf memcmp_def)
    have other: "lookup_node k 32 ?ptr' pos ?subs' = Some q"
      if "lookup_node k 32 ptr pos subs = Some q" for k q
    proof -
      have "unat (get_nibble k pos) \<noteq> ?n"
        using that Empty by (auto simp add: lookup_node_Empty)
      then have "?ptr' ! unat (get_nibble k pos) = ptr ! unat (get_nibble k pos)"
        by simp
      then show ?thesis
        using lookup_other_slot [OF inv sids] that by simp
    qed
    show ?thesis
      using res inv' sids all32' newsid found other by auto
  next
    case (Leaf ret)
    have ret: "ret < length subs" "nibbles (sid (subs ! ret)) (Suc pos) = nibbles s (Suc pos)"
      using slot Leaf by simp_all
    have ret32: "length (sid (subs ! ret)) = 32"
      using all32 ret(1) by simp
    show ?thesis
    proof (cases "memcmp (sid (subs ! ret)) s 32")
      case False
      then have eq: "sid (subs ! ret) = s"
        using ret32 s32 by (simp add: memcmp_def)
      have res: "find_node s 32 True ptr pos subs = (ptr, subs, Some ret)"
        using Leaf False by (simp add: find_node_Leaf)
      have found: "lookup_node s 32 ptr pos subs = Some ret"
        using Leaf False by (simp add: lookup_node_Leaf)
      show ?thesis
        using res inv all32 ret(1) eq found by auto
    next
      case True
      have pos1: "pos + 1 < 32 * 2"
      proof (rule ccontr)
        assume "\<not> pos + 1 < 32 * 2"
        then have "Suc pos = 64"
          using l(2) by simp
        then have "\<forall>i < 2 * 32. get_nibble (sid (subs ! ret)) i = get_nibble s i"
          using ret(2) by (simp add: nibbles_eq_iff)
        then have "sid (subs ! ret) = s"
          using ret32 s32 by (intro nibbles_eq_imp_eq [where n = 32]) simp_all
        then show False
          using True by (simp add: memcmp_def)
      qed
      let ?m = "unat (get_nibble (sid (subs ! ret)) (pos + 1))"
      let ?new = "new_tree_node[?m := Leaf ret]"
      let ?subs1 = "subs[ret := (subs ! ret)\<lparr>abbreviate_len := pos + 1 + 1\<rparr>]"
      have m: "?m < 16"
        by (rule nibble_lt_16)
      have sids1: "\<forall>q < length subs. sid (?subs1 ! q) = sid (subs ! q)"
        using ret(1) by (auto simp add: nth_list_update)
      have all32_1: "\<forall>q < length ?subs1. length (sid (?subs1 ! q)) = 32"
        using all32 ret(1) by (auto simp add: nth_list_update)
      have inv_new: "node_inv ?subs1 (nibbles s (pos + 1)) ?new"
      proof -
        have "slot_inv ?subs1 (nibbles s (pos + 1) @ [i]) (?new ! i)" if "i < 16" for i
        proof (cases "i = ?m")
          case True
          have "nibbles (sid (subs ! ret)) (Suc (Suc pos)) = nibbles s (Suc pos) @ [?m]"
            using ret(2) by (simp add: nibbles_Suc)
          then show ?thesis
            using True m ret(1) by (simp add: new_tree_node_def)
        next
          case False
          then show ?thesis
            using that by (simp add: new_tree_node_def)
        qed
        then show ?thesis
          using pos1 by (simp add: node_inv_def new_tree_node_def)
      qed
      obtain new' subs' p where ih:
        "find_node s 32 True ?new (pos + 1) ?subs1 = (new', subs', Some p)"
        "node_inv subs' (nibbles s (pos + 1)) new'"
        "length ?subs1 \<le> length subs'"
        "\<forall>q < length ?subs1. sid (subs' ! q) = sid (?subs1 ! q)"
        "\<forall>q < length subs'. length (sid (subs' ! q)) = 32"
        "p < length subs'" "sid (subs' ! p) = s"
        "length subs' = length ?subs1 \<or> length subs' = Suc (length ?subs1) \<and> p = length ?subs1"
        "lookup_node s 32 new' (pos + 1) subs' = Some p"
        "\<forall>k q. lookup_node k 32 ?new (pos + 1) ?subs1 = Some q
                  \<longrightarrow> lookup_node k 32 new' (pos + 1) subs' = Some q"
        using "1.hyps"(1) [OF refl refl Leaf _ _ refl refl pos1 inv_new s32 all32_1] True
        by auto
      let ?ptr' = "ptr[?n := Child new']"
      have len': "length subs \<le> length subs'"
        using ih(3) by simp
      have sids: "\<forall>q < length subs. sid (subs' ! q) = sid (subs ! q)"
        using ih(4) sids1 by simp
      have res: "find_node s 32 True ptr pos subs = (?ptr', subs', Some p)"
        using Leaf True pos1 ih(1) by (simp add: find_node_Leaf)
      have "slot_inv subs' (nibbles s (Suc pos)) (Child new')"
        using ih(2) by (simp add: node_inv_def)
      then have inv': "node_inv subs' ?path ?ptr'"
        using inv len' sids by (intro node_inv_update)
      have found: "lookup_node s 32 ?ptr' pos subs' = Some p"
        using l n pos1 ih(9) by (simp add: lookup_node_Child)
      have other: "lookup_node k 32 ?ptr' pos subs' = Some q"
        if old: "lookup_node k 32 ptr pos subs = Some q" for k q
      proof (cases "unat (get_nibble k pos) = ?n")
        case False
        then have "?ptr' ! unat (get_nibble k pos) = ptr ! unat (get_nibble k pos)"
          by simp
        then show ?thesis
          using lookup_other_slot [OF inv sids] old by simp
      next
        case same: True
        have q: "q = ret" "\<not> memcmp (sid (subs ! ret)) k 32"
          using old Leaf same by (simp_all add: lookup_node_Leaf split: if_splits)
        then have "take 32 k = take 32 (sid (subs ! ret))"
          by (simp add: memcmp_def)
        then have "get_nibble k (pos + 1) = get_nibble (sid (subs ! ret)) (pos + 1)"
          using pos1 by (intro get_nibble_take_eq [where n = 32]) simp_all
        then have "?new ! unat (get_nibble k (pos + 1)) = Leaf ret"
          using m by (simp add: new_tree_node_def)
        then have "lookup_node k 32 ?new (pos + 1) ?subs1 = Some ret"
          using q(2) ret(1) by (simp add: lookup_node_Leaf)
        then have "lookup_node k 32 new' (pos + 1) subs' = Some ret"
          using ih(10) by blast
        then show ?thesis
          using same l n pos1 q(1) by (simp add: lookup_node_Child)
      qed
      show ?thesis
        using res inv' len' sids ih(5,6,7,8) found other by auto
    qed
  next
    case (Child t)
    have pos1: "pos + 1 < 32 * 2"
      using slot Child by simp
    have inv_t: "node_inv subs (nibbles s (pos + 1)) t"
      using node_inv_Child [OF inv n Child] by (simp add: nibbles_Suc)
    obtain t' subs' p where ih:
      "find_node s 32 True t (pos + 1) subs = (t', subs', Some p)"
      "node_inv subs' (nibbles s (pos + 1)) t'"
      "length subs \<le> length subs'"
      "\<forall>q < length subs. sid (subs' ! q) = sid (subs ! q)"
      "\<forall>q < length subs'. length (sid (subs' ! q)) = 32"
      "p < length subs'" "sid (subs' ! p) = s"
      "length subs' = length subs \<or> length subs' = Suc (length subs) \<and> p = length subs"
      "lookup_node s 32 t' (pos + 1) subs' = Some p"
      "\<forall>k q. lookup_node k 32 t (pos + 1) subs = Some q
                \<longrightarrow> lookup_node k 32 t' (pos + 1) subs' = Some q"
      using "1.hyps"(2) [OF refl refl Child pos1 inv_t s32 all32] by auto
    let ?ptr' = "ptr[?n := Child t']"
    have res: "find_node s 32 True ptr pos subs = (?ptr', subs', Some p)"
      using Child pos1 ih(1) by (simp add: find_node_Child)
    have "slot_inv subs' (nibbles s (Suc pos)) (Child t')"
      using ih(2) by (simp add: node_inv_def)
    then have inv': "node_inv subs' ?path ?ptr'"
      using inv ih(3,4) by (intro node_inv_update)
    have found: "lookup_node s 32 ?ptr' pos subs' = Some p"
      using l n pos1 ih(9) by (simp add: lookup_node_Child)
    have other: "lookup_node k 32 ?ptr' pos subs' = Some q"
      if old: "lookup_node k 32 ptr pos subs = Some q" for k q
    proof (cases "unat (get_nibble k pos) = ?n")
      case False
      then have "?ptr' ! unat (get_nibble k pos) = ptr ! unat (get_nibble k pos)"
        by simp
      then show ?thesis
        using lookup_other_slot [OF inv ih(4)] old by simp
    next
      case same: True
      have "lookup_node k 32 t (pos + 1) subs = Some q"
        using old Child same pos1 by (simp add: lookup_node_Child)
      then have "lookup_node k 32 t' (pos + 1) subs' = Some q"
        using ih(10) by blast
      then show ?thesis
        using same l n pos1 by (simp add: lookup_node_Child)
    qed
    show ?thesis
      using res inv' ih(3,4,5,6,7,8) found other by auto
  qed
qed

text \<open>
  Claim C2. Starting from the empty directory, inserting \<open>A = 10 00 ...\<close> and then
  \<open>B = 10 01 ...\<close> (any 30 further bytes each) returns a subscriber for both. \<open>A\<close> is first
  placed at depth 1; the insertion of \<open>B\<close> moves it down, and afterwards both have
  \<^verbatim>\<open>abbreviate_len\<close> 4. Looking up the one byte \<open>10\<close> then returns \<^verbatim>\<open>NULL\<close>, and looking up the
  two bytes \<open>10 00\<close> returns \<open>A\<close>.
\<close>

theorem split_scenario:
  assumes "length ta = 30" and "length tb = 30"
  shows "case find_subscriber empty_directory (0x10 # 0x00 # ta) 32 True of (d1, ra) \<Rightarrow>
          case find_subscriber d1 (0x10 # 0x01 # tb) 32 True of (d2, rb) \<Rightarrow>
            ra = Some 0 \<and> rb = Some 1 \<and>
            abbreviate_len (subscribers d1 ! 0) = 1 \<and>
            abbreviate_len (subscribers d2 ! 0) = 4 \<and>
            abbreviate_len (subscribers d2 ! 1) = 4 \<and>
            sid (subscribers d2 ! 0) = 0x10 # 0x00 # ta \<and>
            sid (subscribers d2 ! 1) = 0x10 # 0x01 # tb \<and>
            find_subscriber d2 [0x10] 1 False = (d2, None) \<and>
            find_subscriber d2 [0x10, 0x00] 2 False = (d2, Some 0)"
  using assms
  by (simp add: find_subscriber_def empty_directory_def find_node.simps get_nibble_def
      new_tree_node_def SID_SIZE_def memcmp_def new_subscriber_def)

theorem split_scenario_witness:
  "length (replicate 30 (0::byte)) = 30 \<and>
   (case find_subscriber empty_directory (0x10 # 0x00 # replicate 30 0) 32 True of (d1, ra) \<Rightarrow>
      case find_subscriber d1 (0x10 # 0x01 # replicate 30 0) 32 True of (d2, rb) \<Rightarrow>
        ra = Some 0 \<and> rb = Some 1 \<and>
        abbreviate_len (subscribers d1 ! 0) = 1 \<and>
        abbreviate_len (subscribers d2 ! 0) = 4 \<and>
        abbreviate_len (subscribers d2 ! 1) = 4 \<and>
        sid (subscribers d2 ! 0) = 0x10 # 0x00 # replicate 30 0 \<and>
        sid (subscribers d2 ! 1) = 0x10 # 0x01 # replicate 30 0 \<and>
        find_subscriber d2 [0x10] 1 False = (d2, None) \<and>
        find_subscriber d2 [0x10, 0x00] 2 False = (d2, Some 0))"
proof -
  have h: "length (replicate 30 (0::byte)) = 30"
    by simp
  show ?thesis
    using h split_scenario [OF h h] by blast
qed

lemma find_subscriber_lookup:
  "find_subscriber d s len False = (d, lookup_node s len (root d) 0 (subscribers d))"
  by (simp add: find_subscriber_def find_node_False)

lemma find_node_found:
  "lookup_node s len ptr pos subs = Some p \<Longrightarrow> find_node s len create ptr pos subs = (ptr, subs, Some p)"
proof (induction ptr pos rule: lookup_induct [where s = s and len = len])
  case (step ptr pos)
  show ?case
  proof (cases "ptr ! unat (get_nibble s pos)")
    case Empty
    then show ?thesis
      using step.prems by (simp add: lookup_node_Empty)
  next
    case (Leaf ret)
    then show ?thesis
      using step.prems by (simp add: lookup_node_Leaf find_node_Leaf split: if_splits)
  next
    case (Child t)
    then have pos1: "pos + 1 < len * 2" and t: "lookup_node s len t (pos + 1) subs = Some p"
      using step.prems by (simp_all add: lookup_node_Child split: if_splits)
    have "find_node s len create t (pos + 1) subs = (t, subs, Some p)"
      using Child pos1 t by (rule step.IH)
    moreover have "ptr[unat (get_nibble s pos) := Child t] = ptr"
      using Child list_update_id [of ptr "unat (get_nibble s pos)"] by simp
    ultimately show ?thesis
      using Child pos1 by (simp add: find_node_Child)
  qed
qed

lemma find_subscriber_found:
  assumes "lookup_node s len (root d) 0 (subscribers d) = Some p"
  shows "find_subscriber d s len create = (d, Some p)"
  using find_node_found [OF assms] by (simp add: find_subscriber_def)

lemma dir_inv_empty: "dir_inv empty_directory"
  by (simp add: dir_inv_def empty_directory_def node_inv_def new_tree_node_def)

lemma dir_inv_insert:
  assumes inv: "dir_inv d" and s: "length s = 32"
  shows "\<exists>d' p. find_subscriber d s 32 True = (d', Some p) \<and> dir_inv d' \<and>
           p < length (subscribers d') \<and> sid (subscribers d' ! p) = s \<and>
           sid ` set (subscribers d') = insert s (sid ` set (subscribers d)) \<and>
           length (subscribers d) \<le> length (subscribers d') \<and>
           (\<forall>q < length (subscribers d). sid (subscribers d' ! q) = sid (subscribers d ! q))"
proof -
  let ?subs = "subscribers d"
  have ninv: "node_inv ?subs (nibbles s 0) (root d)"
    using inv by (simp add: dir_inv_def nibbles_def)
  have all32: "\<forall>q < length ?subs. length (sid (?subs ! q)) = 32"
    using inv by (simp add: dir_inv_def)
  obtain ptr' subs' p where r:
    "find_node s 32 True (root d) 0 ?subs = (ptr', subs', Some p)"
    "node_inv subs' (nibbles s 0) ptr'"
    "length ?subs \<le> length subs'"
    "\<forall>q < length ?subs. sid (subs' ! q) = sid (?subs ! q)"
    "\<forall>q < length subs'. length (sid (subs' ! q)) = 32"
    "p < length subs'" "sid (subs' ! p) = s"
    "length subs' = length ?subs \<or> length subs' = Suc (length ?subs) \<and> p = length ?subs"
    "lookup_node s 32 ptr' 0 subs' = Some p"
    "\<forall>k q. lookup_node k 32 (root d) 0 ?subs = Some q \<longrightarrow> lookup_node k 32 ptr' 0 subs' = Some q"
    using find_node_insert [OF ninv s all32] by blast
  let ?d' = "d\<lparr>root := ptr', subscribers := subs'\<rparr>"
  have res: "find_subscriber d s 32 True = (?d', Some p)"
    using r(1) by (simp add: find_subscriber_def SID_SIZE_def)
  have look: "lookup_node (sid (subs' ! q)) 32 ptr' 0 subs' = Some q" if "q < length subs'" for q
  proof (cases "q < length ?subs")
    case True
    then have "lookup_node (sid (?subs ! q)) 32 (root d) 0 ?subs = Some q"
      using inv by (simp add: dir_inv_def)
    then show ?thesis
      using r(4,10) True by simp
  next
    case False
    then have "q = p"
      using r(8) that by auto
    then show ?thesis
      using r(7,9) by simp
  qed
  have inv': "dir_inv ?d'"
    using r(2,5) look by (simp add: dir_inv_def nibbles_def)
  have sids: "sid ` set subs' = insert s (sid ` set ?subs)"
  proof (intro set_eqI iffI)
    fix x
    assume "x \<in> sid ` set subs'"
    then obtain q where q: "q < length subs'" "x = sid (subs' ! q)"
      by (auto simp add: in_set_conv_nth)
    show "x \<in> insert s (sid ` set ?subs)"
    proof (cases "q < length ?subs")
      case True
      then have "x = sid (?subs ! q)" "?subs ! q \<in> set ?subs"
        using q r(4) by simp_all
      then show ?thesis
        by blast
    next
      case False
      then have "q = p"
        using r(8) q(1) by auto
      then show ?thesis
        using q r(7) by simp
    qed
  next
    fix x
    assume "x \<in> insert s (sid ` set ?subs)"
    then consider "x = s" | q where "q < length ?subs" "x = sid (?subs ! q)"
      by (auto simp add: in_set_conv_nth)
    then show "x \<in> sid ` set subs'"
    proof cases
      case 1
      then show ?thesis
        using r(6,7) by (metis imageI nth_mem)
    next
      case 2
      then have "q < length subs'" "x = sid (subs' ! q)"
        using r(3,4) by simp_all
      then show ?thesis
        by (metis imageI nth_mem)
    qed
  qed
  show ?thesis
    using res inv' r(3,4,6,7) sids by auto
qed

lemma dir_inv_update:
  assumes inv: "dir_inv d" and p: "p < length (subscribers d)"
    and s': "sid s' = sid (subscribers d ! p)"
  shows "dir_inv (d\<lparr>subscribers := (subscribers d)[p := s']\<rparr>)"
proof -
  let ?subs = "subscribers d" and ?subs' = "(subscribers d)[p := s']"
  have sids: "\<forall>q < length ?subs. sid (?subs' ! q) = sid (?subs ! q)"
    using s' p by (auto simp add: nth_list_update)
  have n: "node_inv ?subs [] (root d)"
    using inv by (simp add: dir_inv_def)
  have "node_inv ?subs' [] (root d)"
    by (rule node_inv_mono [OF n _ sids]) simp
  moreover have "lookup_node k 32 (root d) 0 ?subs' = lookup_node k 32 (root d) 0 ?subs" for k
    by (rule lookup_subs_cong [OF sids n])
  ultimately show ?thesis
    using inv sids by (simp add: dir_inv_def)
qed

lemma dir_reach_inv: "dir_reach I d \<Longrightarrow> dir_inv d \<and> I = sid ` set (subscribers d)"
proof (induction rule: dir_reach.induct)
  case start
  show ?case
    by (simp add: dir_inv_empty) (simp add: empty_directory_def)
next
  case (inserted I d s)
  then show ?case
    using dir_inv_insert [of d s] by (auto simp add: SID_SIZE_def)
next
  case (updated I d p i h r f)
  let ?s' = "(subscribers d ! p)\<lparr>send_full := f, reachable := r, next_hop := h, interface := i\<rparr>"
  have inv: "dir_inv d" and I: "I = sid ` set (subscribers d)"
    using updated.IH by simp_all
  have "dir_inv (d\<lparr>subscribers := (subscribers d)[p := ?s']\<rparr>)"
    by (rule dir_inv_update [OF inv updated.hyps(2)]) simp
  moreover have "map sid ((subscribers d)[p := ?s']) = map sid (subscribers d)"
    using updated.hyps(2) by (intro nth_equalityI) (auto simp add: nth_list_update)
  then have "sid ` set ((subscribers d)[p := ?s']) = sid ` set (subscribers d)"
    by (metis set_map)
  ultimately show ?case
    using I by simp
qed

text \<open>
  Claim C1, amended. Let \<open>A\<close> and \<open>B\<close> be two distinct node IDs, both inserted in full with
  \<open>create\<close> set, in a directory the program can reach. Then looking up \<open>A\<close> in full returns the
  subscriber of \<open>A\<close> and looking up \<open>B\<close> in full returns the subscriber of \<open>B\<close>. For every
  prefix length \<open>L \<ge> 2\<close> in nibbles such that \<open>A\<close> and \<open>B\<close> share their first \<open>L\<close> nibbles,
  looking up the first \<open>L / 2\<close> (rounded down) bytes of \<open>A\<close> returns \<^verbatim>\<open>NULL\<close>: the lookup compares
  whole bytes, so only the whole bytes inside the shared nibbles are ambiguous.
\<close>

theorem lookup_inserted:
  assumes "dir_reach I d" and "A \<in> I" and "B \<in> I" and "A \<noteq> B"
  shows "\<exists>pa pb. pa < length (subscribers d) \<and> pb < length (subscribers d) \<and> pa \<noteq> pb \<and>
           sid (subscribers d ! pa) = A \<and> sid (subscribers d ! pb) = B \<and>
           find_subscriber d A 32 False = (d, Some pa) \<and>
           find_subscriber d B 32 False = (d, Some pb) \<and>
           (\<forall>L. 2 \<le> L \<and> (\<forall>i < L. get_nibble A i = get_nibble B i) \<longrightarrow>
                find_subscriber d (take (L div 2) A) (L div 2) False = (d, None))"
proof -
  let ?subs = "subscribers d"
  have inv: "dir_inv d" and I: "I = sid ` set ?subs"
    using dir_reach_inv [OF assms(1)] by simp_all
  obtain pa pb where p: "pa < length ?subs" "sid (?subs ! pa) = A"
    "pb < length ?subs" "sid (?subs ! pb) = B"
    using assms(2,3) I by (auto simp add: in_set_conv_nth)
  have la: "lookup_node A 32 (root d) 0 ?subs = Some pa" "length A = 32"
    and lb: "lookup_node B 32 (root d) 0 ?subs = Some pb" "length B = 32"
    using inv p by (auto simp add: dir_inv_def)
  have ne: "pa \<noteq> pb"
    using p assms(4) by auto
  have amb: "lookup_node (take (L div 2) A) (L div 2) (root d) 0 ?subs = None"
    if L: "2 \<le> L" "\<forall>i < L. get_nibble A i = get_nibble B i" for L
  proof -
    have "L div 2 \<le> 32"
    proof (rule ccontr)
      assume "\<not> L div 2 \<le> 32"
      then have "\<forall>i < 2 * 32. get_nibble A i = get_nibble B i"
        using L(2) by auto
      then have "A = B"
        using la(2) lb(2) by (intro nibbles_eq_imp_eq [where n = 32]) simp_all
      then show False
        using assms(4) by simp
    qed
    then have le: "L div 2 \<le> 32" .
    have nib: "\<forall>i < 2 * (L div 2). get_nibble A i = get_nibble B i"
      using L(2) by auto
    have pos: "0 < 2 * (L div 2)"
      using L(1) by auto
    show ?thesis
      by (rule ambiguous_prefix [OF la(1) lb(1) ne nib pos le le])
  qed
  show ?thesis
    using p ne la(1) lb(1) amb by (auto simp add: find_subscriber_lookup)
qed

lemmas find_eval = find_subscriber_def empty_directory_def find_node.simps get_nibble_def
  new_tree_node_def SID_SIZE_def memcmp_def new_subscriber_def

theorem lookup_inserted_witness:
  "dir_reach {0x10 # 0x01 # replicate 30 0, 0x10 # 0x00 # replicate 30 0}
     (fst (find_subscriber (fst (find_subscriber empty_directory
        (0x10 # 0x00 # replicate 30 0) 32 True)) (0x10 # 0x01 # replicate 30 0) 32 True)) \<and>
   (0x10 # 0x00 # replicate 30 0 :: byte list) \<noteq> 0x10 # 0x01 # replicate 30 0 \<and>
   get_nibble (0x10 # 0x00 # replicate 30 0) 0 = get_nibble (0x10 # 0x01 # replicate 30 0) 0 \<and>
   get_nibble (0x10 # 0x00 # replicate 30 0) 1 = get_nibble (0x10 # 0x01 # replicate 30 0) 1 \<and>
   snd (find_subscriber (fst (find_subscriber (fst (find_subscriber empty_directory
        (0x10 # 0x00 # replicate 30 0) 32 True)) (0x10 # 0x01 # replicate 30 0) 32 True))
        (0x10 # 0x00 # replicate 30 0) 32 False) \<noteq> None \<and>
   snd (find_subscriber (fst (find_subscriber (fst (find_subscriber empty_directory
        (0x10 # 0x00 # replicate 30 0) 32 True)) (0x10 # 0x01 # replicate 30 0) 32 True))
        (take (2 div 2) (0x10 # 0x00 # replicate 30 0)) (2 div 2) False) = None"
proof -
  let ?A = "0x10 # 0x00 # replicate 30 0 :: byte list"
  let ?B = "0x10 # 0x01 # replicate 30 0 :: byte list"
  let ?d = "fst (find_subscriber (fst (find_subscriber empty_directory ?A 32 True)) ?B 32 True)"
  have "dir_reach (insert ?B (insert ?A {}))
          (fst (find_subscriber (fst (find_subscriber empty_directory ?A SID_SIZE True))
             ?B SID_SIZE True))"
    by (intro dir_reach.intros) (simp_all add: SID_SIZE_def)
  then have r: "dir_reach {?B, ?A} ?d"
    by (simp add: SID_SIZE_def)
  have ne: "?A \<noteq> ?B"
    by simp
  have sh: "\<forall>i < 2. get_nibble ?A i = get_nibble ?B i"
    by (simp add: get_nibble_def less_Suc_eq numeral_2_eq_2)
  obtain pa pb where
    "find_subscriber ?d ?A 32 False = (?d, Some pa)"
    "find_subscriber ?d ?B 32 False = (?d, Some pb)"
    "\<forall>L. 2 \<le> L \<and> (\<forall>i < L. get_nibble ?A i = get_nibble ?B i) \<longrightarrow>
         find_subscriber ?d (take (L div 2) ?A) (L div 2) False = (?d, None)"
    using lookup_inserted [OF r _ _ ne] by auto
  then have "snd (find_subscriber ?d ?A 32 False) \<noteq> None"
    "snd (find_subscriber ?d (take (2 div 2) ?A) (2 div 2) False) = None"
    using sh by (simp, metis order_refl snd_conv)
  moreover have "get_nibble ?A 0 = get_nibble ?B 0" "get_nibble ?A 1 = get_nibble ?B 1"
    using sh by simp_all
  ultimately show ?thesis
    using r ne by blast
qed

text \<open>
  The claim as stated takes \<open>L / 2\<close> rounded up. With \<open>A = 10 00 ...\<close> and \<open>B = 1F 00 ...\<close>,
  which share \<open>L = 1\<close> nibble, the one byte \<open>10\<close> of \<open>A\<close> holds two nibbles and resolves to \<open>A\<close>.
\<close>

theorem lookup_odd_prefix:
  "get_nibble (0x10 # replicate 31 0) 0 = get_nibble (0x1F # replicate 31 0) 0 \<and>
   find_subscriber empty_directory (0x10 # replicate 31 0) 32 True
     = (fst (find_subscriber empty_directory (0x10 # replicate 31 0) 32 True), Some 0) \<and>
   find_subscriber (fst (find_subscriber empty_directory (0x10 # replicate 31 0) 32 True))
       (0x1F # replicate 31 0) 32 True
     = (fst (find_subscriber (fst (find_subscriber empty_directory (0x10 # replicate 31 0) 32 True))
          (0x1F # replicate 31 0) 32 True), Some 1) \<and>
   find_subscriber
       (fst (find_subscriber (fst (find_subscriber empty_directory (0x10 # replicate 31 0) 32 True))
          (0x1F # replicate 31 0) 32 True))
       (take ((1 + 1) div 2) (0x10 # replicate 31 0)) ((1 + 1) div 2) False
     = (fst (find_subscriber (fst (find_subscriber empty_directory (0x10 # replicate 31 0) 32 True))
          (0x1F # replicate 31 0) 32 True), Some 0)"
  by (simp add: find_eval)

section \<open>Properties of the broadcast cache\<close>

lemma bpi_step_spec: "bpi_step h b = spec_bpi_step h b"
proof -
  have m: "(7::int) = mask 3" and k: "(0xfff8::int) = push_bit 3 (mask 13)"
    by (simp_all add: mask_eq_exp_minus_1 push_bit_eq_mult)
  have "(push_bit 3 h AND 0xfff8) + (drop_bit 13 h AND 0x7)
        = (push_bit 3 h AND 0xfff8) OR (drop_bit 13 h AND (0x7::int))"
    unfolding m k
    by (rule disjunctive_add) (auto simp add: bit_and_iff bit_push_bit_iff bit_mask_iff)
  then show ?thesis
    by (simp add: bpi_step_def spec_bpi_step_def)
qed

lemma bpi_hash_spec: "bpi_hash addr = spec_bpi_slot addr"
proof -
  have "foldl bpi_step h xs = foldl spec_bpi_step h xs" for h xs
    by (induction xs arbitrary: h) (simp_all add: bpi_step_spec)
  then show ?thesis
    by (simp add: bpi_hash_def spec_bpi_slot_def BROADCAST_LEN_def BPI_MASK_def)
qed

lemma bpi_hash_range: "0 \<le> bpi_hash addr \<and> bpi_hash addr < 1024"
proof -
  have "foldl bpi_step 0 (take BROADCAST_LEN addr) AND 0x3ff \<le> 0x3ff"
    by (rule AND_upper2) simp
  then show ?thesis
    by (simp add: bpi_hash_def BPI_MASK_def)
qed

lemma bpi_step_bound: "0 \<le> bpi_step h b \<and> bpi_step h b < 2 ^ 16"
proof -
  let ?a = "push_bit 3 h AND (0xfff8::int)" and ?c = "drop_bit 13 h AND (0x7::int)"
  have a: "0 \<le> ?a" "?a < 2 ^ 16"
    using AND_upper2 [of "0xfff8" "push_bit 3 h"] by simp_all
  have c: "0 \<le> ?c" "?c < 2 ^ 16"
    using AND_upper2 [of "0x7" "drop_bit 13 h"] by simp_all
  have b: "0 \<le> uint b" "uint b < 2 ^ 16"
    using uint_bounded [of b] by simp_all
  have ac: "0 \<le> ?a OR ?c" "?a OR ?c < 2 ^ 16"
    using a c by (simp, intro OR_upper)
  have "0 \<le> (?a OR ?c) XOR uint b" "(?a OR ?c) XOR uint b < 2 ^ 16"
    using ac b by (simp, intro XOR_upper)
  then show ?thesis
    using bpi_step_spec [of h b] by (simp add: spec_bpi_step_def)
qed

lemma fresh_slot: "i < 1024 \<Longrightarrow> fresh_bpilist ! i = replicate 8 0"
  by (simp add: fresh_bpilist_def MAX_BPIS_def BROADCAST_LEN_def)

text \<open>
  Claim C7, amended. The slot of a BPI is the rolling hash of section 4.4 of the spec,
  masked to 10 bits, and lies in the 1024-slot table. For every 8-byte BPI other than the
  all-zero one, the first call on the fresh table returns 0 (do not drop) and stores the
  BPI in its slot, and the call repeated at once returns 1 (drop).
\<close>

theorem drop_check_fresh:
  assumes "length bpi = 8" and "bpi \<noteq> replicate 8 0"
  shows "bpi_hash bpi = spec_bpi_slot bpi \<and> 0 \<le> bpi_hash bpi \<and> bpi_hash bpi < 1024 \<and>
         overlay_broadcast_drop_check fresh_bpilist bpi
           = (fresh_bpilist[nat (bpi_hash bpi) := bpi], 0) \<and>
         overlay_broadcast_drop_check (fresh_bpilist[nat (bpi_hash bpi) := bpi]) bpi
           = (fresh_bpilist[nat (bpi_hash bpi) := bpi], 1)"
proof -
  let ?i = "nat (bpi_hash bpi)"
  have i: "?i < 1024"
    using bpi_hash_range [of bpi] by linarith
  have len: "?i < length fresh_bpilist"
    using i by (simp add: fresh_bpilist_def MAX_BPIS_def)
  have first: "overlay_broadcast_drop_check fresh_bpilist bpi = (fresh_bpilist[?i := bpi], 0)"
    using assms fresh_slot [OF i]
    by (simp add: overlay_broadcast_drop_check_def memcmp_def BROADCAST_LEN_def)
  have again: "overlay_broadcast_drop_check (fresh_bpilist[?i := bpi]) bpi
                 = (fresh_bpilist[?i := bpi], 1)"
    using len by (simp add: overlay_broadcast_drop_check_def memcmp_def)
  show ?thesis
    using first again bpi_hash_spec [of bpi] bpi_hash_range [of bpi] by simp
qed

theorem drop_check_fresh_witness:
  "length [0, 1, 2, 3, 4, 5, 6, 7 :: byte] = 8 \<and> [0, 1, 2, 3, 4, 5, 6, 7 :: byte] \<noteq> replicate 8 0 \<and>
   bpi_hash [0, 1, 2, 3, 4, 5, 6, 7] = 0x172 \<and>
   overlay_broadcast_drop_check fresh_bpilist [0, 1, 2, 3, 4, 5, 6, 7]
     = (fresh_bpilist[0x172 := [0, 1, 2, 3, 4, 5, 6, 7]], 0) \<and>
   overlay_broadcast_drop_check (fresh_bpilist[0x172 := [0, 1, 2, 3, 4, 5, 6, 7]]) [0, 1, 2, 3, 4, 5, 6, 7]
     = (fresh_bpilist[0x172 := [0, 1, 2, 3, 4, 5, 6, 7]], 1)"
proof -
  have h1: "length [0, 1, 2, 3, 4, 5, 6, 7 :: byte] = 8"
    by simp
  have h2: "[0, 1, 2, 3, 4, 5, 6, 7 :: byte] \<noteq> replicate 8 0"
    by (simp add: numeral_eq_Suc)
  have v: "bpi_hash [0, 1, 2, 3, 4, 5, 6, 7] = 0x172"
    by (simp add: bpi_hash_def bpi_step_def BROADCAST_LEN_def BPI_MASK_def)
  show ?thesis
    using h1 h2 drop_check_fresh [OF h1 h2] unfolding v by simp
qed

text \<open>
  The claim as stated, for every BPI, fails at the all-zero BPI: the zeroed slot of the
  fresh table already equals it, and the first call returns 1.
\<close>

theorem drop_check_zero_bpi:
  "overlay_broadcast_drop_check fresh_bpilist [0, 0, 0, 0, 0, 0, 0, 0] = (fresh_bpilist, 1)"
proof -
  have "bpi_hash [0, 0, 0, 0, 0, 0, 0, 0] = 0"
    by (simp add: bpi_hash_def bpi_step_def BROADCAST_LEN_def BPI_MASK_def)
  moreover have "fresh_bpilist ! 0 = replicate 8 0"
    by (rule fresh_slot) simp
  ultimately show ?thesis
    by (simp add: overlay_broadcast_drop_check_def memcmp_def BROADCAST_LEN_def numeral_eq_Suc)
qed

section \<open>Properties of reachability\<close>

lemmas reach_defs = REACHABLE_NONE_def REACHABLE_SELF_def REACHABLE_BROADCAST_def
  REACHABLE_UNICAST_def REACHABLE_INDIRECT_def REACHABLE_ASSUMED_def REACHABLE_DIRECT_def

text \<open>
  Claim C5, amended. For a subscriber whose stored \<^verbatim>\<open>reachable\<close> is equal to
  \<^verbatim>\<open>REACHABLE_INDIRECT\<close>, \<^verbatim>\<open>subscriber_is_reachable\<close> returns NONE unless the next hop is set,
  the next hop's stored \<^verbatim>\<open>reachable\<close> has a DIRECT bit, and the result for the next hop has a
  DIRECT bit and not ASSUMED; when all of that holds it returns INDIRECT. So with \<open>A\<close>
  INDIRECT through \<open>B\<close> and \<open>B\<close> stored as INDIRECT the result for \<open>A\<close> is NONE, and once \<open>B\<close>
  is changed to DIRECT|UNICAST on an interface that is UP the result for \<open>A\<close> is INDIRECT.
\<close>

theorem resolve_indirect:
  "(reachable (subs ! p) = REACHABLE_INDIRECT \<longrightarrow>
      subscriber_is_reachable ifs subs (Some p) =
        (if (case next_hop (subs ! p) of
               None \<Rightarrow> False
             | Some n \<Rightarrow>
                 reachable (subs ! n) AND REACHABLE_DIRECT \<noteq> 0 \<and>
                 subscriber_is_reachable ifs subs (Some n) AND REACHABLE_DIRECT \<noteq> 0 \<and>
                 subscriber_is_reachable ifs subs (Some n) AND REACHABLE_ASSUMED = 0)
         then REACHABLE_INDIRECT else REACHABLE_NONE)) \<and>
   (reachable (subs ! a) = REACHABLE_INDIRECT \<and> next_hop (subs ! a) = Some b \<and>
    reachable (subs ! b) = REACHABLE_INDIRECT \<longrightarrow>
      subscriber_is_reachable ifs subs (Some a) = REACHABLE_NONE) \<and>
   (reachable (subs ! a) = REACHABLE_INDIRECT \<and> next_hop (subs ! a) = Some b \<and>
    a \<noteq> b \<and> b < length subs \<and> state (ifs ! i) = INTERFACE_STATE_UP \<longrightarrow>
      subscriber_is_reachable ifs
        (subs[b := (subs ! b)\<lparr>reachable := REACHABLE_DIRECT OR REACHABLE_UNICAST,
                               interface := Some i\<rparr>]) (Some a) = REACHABLE_INDIRECT)"
  by (auto simp add: Let_def reach_defs split: option.splits)

theorem resolve_indirect_witness:
  "reachable (scen_subs ! 0) = REACHABLE_INDIRECT \<and> next_hop (scen_subs ! 0) = Some 1 \<and>
   reachable (scen_subs ! 1) = REACHABLE_INDIRECT \<and> next_hop (scen_subs ! 1) = Some 2 \<and>
   reachable (scen_subs ! 2) = REACHABLE_DIRECT OR REACHABLE_UNICAST \<and>
   state (hd [\<lparr>state = INTERFACE_STATE_UP\<rparr>]) = INTERFACE_STATE_UP \<and>
   subscriber_is_reachable [\<lparr>state = INTERFACE_STATE_UP\<rparr>] scen_subs (Some 0) = REACHABLE_NONE \<and>
   subscriber_is_reachable [\<lparr>state = INTERFACE_STATE_UP\<rparr>]
     (scen_subs[1 := (scen_subs ! 1)\<lparr>reachable := REACHABLE_DIRECT OR REACHABLE_UNICAST,
                                      interface := Some 0\<rparr>]) (Some 0) = REACHABLE_INDIRECT"
  using resolve_indirect [where subs = scen_subs and p = 0 and a = 0 and b = 1 and i = 0
      and ifs = "[\<lparr>state = INTERFACE_STATE_UP\<rparr>]"]
  by (simp add: scen_subs_def new_subscriber_def)

text \<open>
  The claim as stated, for every stored value that includes the INDIRECT bit, fails where
  other bits are set too: the code compares with \<^verbatim>\<open>==\<close>, so INDIRECT|ASSUMED without a next
  hop is returned as it is stored.
\<close>

theorem resolve_indirect_with_other_bits:
  "reachable ((new_subscriber (0x10 # replicate 31 0) 1)
      \<lparr>reachable := REACHABLE_INDIRECT OR REACHABLE_ASSUMED\<rparr>) AND REACHABLE_INDIRECT \<noteq> 0 \<and>
   next_hop ((new_subscriber (0x10 # replicate 31 0) 1)
      \<lparr>reachable := REACHABLE_INDIRECT OR REACHABLE_ASSUMED\<rparr>) = None \<and>
   subscriber_is_reachable []
     [(new_subscriber (0x10 # replicate 31 0) 1)\<lparr>reachable := REACHABLE_INDIRECT OR REACHABLE_ASSUMED\<rparr>]
     (Some 0) \<noteq> REACHABLE_NONE"
  by (simp add: new_subscriber_def reach_defs)

section \<open>Properties of the encoder\<close>

lemmas buf_defs = ob_append_byte_def ob_append_bytes_def ob_makespace_def ob_new_def

lemma append_literal:
  assumes ns: "case ctx of None \<Rightarrow> True | Some c \<Rightarrow> sender c \<noteq> Some p \<and> previous c \<noteq> Some p"
    and L: "L = (if send_full (subs ! p) then 32
                 else min 32 ((abbreviate_len (subs ! p) + 2) div 2
                              + (if reachable (subs ! p) = REACHABLE_SELF then 1 else 0)))"
    and room: "ob_makespace b (1 + L)"
  shows "overlay_address_append ctx b (Some p) subs =
           (0, set_previous ctx p,
            b\<lparr>ob_bytes := ob_bytes b @ of_nat L # take L (sid (subs ! p))\<rparr>,
            if send_full (subs ! p) then subs[p := (subs ! p)\<lparr>send_full := False\<rparr>] else subs)"
proof -
  have r1: "ob_makespace b 1"
    using room by (auto simp add: ob_makespace_def split: option.splits)
  have r2: "ob_makespace (b\<lparr>ob_bytes := ob_bytes b @ [x]\<rparr>) L" for x
    using room by (auto simp add: ob_makespace_def split: option.splits)
  have len: "(if send_full (subs ! p) then SID_SIZE
              else (let len = (abbreviate_len (subs ! p) + 2) div 2;
                        len = (if reachable (subs ! p) = REACHABLE_SELF then len + 1 else len)
                    in if len > SID_SIZE then SID_SIZE else len)) = L"
    unfolding L by (auto simp add: SID_SIZE_def Let_def min_def)
  have c1: "\<not> (case ctx of None \<Rightarrow> False | Some c \<Rightarrow> sender c = Some p)"
    and c2: "\<not> (case ctx of None \<Rightarrow> False | Some c \<Rightarrow> previous c = Some p)"
    using ns by (auto split: option.splits)
  show ?thesis
    unfolding overlay_address_append_def
    using c1 c2 r1 r2
    by (simp add: len Let_def ob_append_byte_def ob_append_bytes_def)
qed

lemma append_self:
  assumes "sender c = Some p" and "ob_makespace b 1"
  shows "overlay_address_append (Some c) b (Some p) subs =
           (0, Some (c\<lparr>previous := Some p\<rparr>), b\<lparr>ob_bytes := ob_bytes b @ [0xff]\<rparr>, subs)"
  using assms
  by (simp add: overlay_address_append_def ob_append_byte_def OA_CODE_SELF_def set_previous_def)

lemma append_previous:
  assumes "sender c \<noteq> Some p" and "previous c = Some p" and "ob_makespace b 1"
  shows "overlay_address_append (Some c) b (Some p) subs =
           (0, Some c, b\<lparr>ob_bytes := ob_bytes b @ [0xfe]\<rparr>, subs)"
  using assms
  by (simp add: overlay_address_append_def ob_append_byte_def OA_CODE_PREVIOUS_def
      set_previous_def)

lemma append_success_context:
  assumes "overlay_address_append (Some c) b (Some p) subs = (0, ctx1, b1, subs1)"
  shows "ctx1 = Some (c\<lparr>previous := Some p\<rparr>)"
  using assms
  by (auto simp add: overlay_address_append_def set_previous_def Let_def
      split: if_splits prod.splits)

text \<open>
  Claim C3, amended. For a subscriber that is neither the sender nor the previous
  subscriber of the context (or with no context), and with room in the buffer,
  \<^verbatim>\<open>overlay_address_append\<close> succeeds and appends the byte \<open>L\<close> and the first \<open>L\<close> bytes of the
  node ID, where \<open>L\<close> is 32 if \<^verbatim>\<open>send_full\<close> is set, and otherwise \<open>(abbreviate_len + 2) / 2\<close>
  rounded down, plus one if \<^verbatim>\<open>reachable\<close> is SELF, and at most 32. Afterwards \<^verbatim>\<open>send_full\<close> is
  clear and the context's previous subscriber is this one.
\<close>

theorem append_emits_literal:
  assumes "case ctx of None \<Rightarrow> True | Some c \<Rightarrow> sender c \<noteq> Some p \<and> previous c \<noteq> Some p"
    and "L = (if send_full (subs ! p) then 32
              else min 32 ((abbreviate_len (subs ! p) + 2) div 2
                           + (if reachable (subs ! p) = REACHABLE_SELF then 1 else 0)))"
    and "ob_makespace b (1 + L)"
    and "p < length subs"
  shows "case overlay_address_append ctx b (Some p) subs of
           (rc, ctxa, b1, subs1) \<Rightarrow>
             rc = 0 \<and>
             ob_bytes b1 = ob_bytes b @ of_nat L # take L (sid (subs ! p)) \<and>
             \<not> send_full (subs1 ! p) \<and>
             subs1 = (if send_full (subs ! p)
                      then subs[p := (subs ! p)\<lparr>send_full := False\<rparr>] else subs) \<and>
             ctxa = map_option (\<lambda>c. c\<lparr>previous := Some p\<rparr>) ctx"
  using append_literal [OF assms(1,2,3)] assms(4)
  by (simp add: set_previous_def)

theorem append_emits_literal_witness:
  "(case Some zero_context of None \<Rightarrow> True | Some c \<Rightarrow> sender c \<noteq> Some 0 \<and> previous c \<noteq> Some 0) \<and>
   ob_makespace ob_new (1 + 1) \<and> (0::nat) < length [new_subscriber (0x20 # replicate 31 0) 1] \<and>
   (case overlay_address_append (Some zero_context) ob_new (Some 0)
           [new_subscriber (0x20 # replicate 31 0) 1] of
      (rc, ctxa, b1, subs1) \<Rightarrow>
        rc = 0 \<and> ob_bytes b1 = [0x01, 0x20] \<and>
        ctxa = Some (zero_context\<lparr>previous := Some 0\<rparr>))"
proof -
  let ?subs = "[new_subscriber (0x20 # replicate 31 0) 1]"
  have 1: "case Some zero_context of None \<Rightarrow> True
           | Some c \<Rightarrow> sender c \<noteq> Some 0 \<and> previous c \<noteq> Some 0"
    by (simp add: zero_context_def)
  have 2: "1 = (if send_full (?subs ! 0) then 32
              else min 32 ((abbreviate_len (?subs ! 0) + 2) div 2
                           + (if reachable (?subs ! 0) = REACHABLE_SELF then 1 else 0)))"
    by (simp add: new_subscriber_def REACHABLE_SELF_def)
  have 3: "ob_makespace ob_new (1 + 1)"
    by (simp add: ob_makespace_def ob_new_def)
  have 4: "0 < length ?subs"
    by simp
  show ?thesis
    using 1 3 4 append_emits_literal [OF 1 2 3 4]
    by (simp add: new_subscriber_def ob_new_def SID_SIZE_def split: prod.splits)
qed

text \<open>
  The claim as stated rounds \<open>(abbreviate_len + 2) / 2\<close> up. For a subscriber placed at depth
  1 that gives 2, but the code writes the length byte 1 and one byte of the node ID.
\<close>

theorem append_odd_abbreviate_len:
  "abbreviate_len (new_subscriber (0x20 # replicate 31 0) 1) = 1 \<and>
   ob_bytes (fst (snd (snd (overlay_address_append (Some zero_context) ob_new (Some 0)
       [new_subscriber (0x20 # replicate 31 0) 1])))) = [0x01, 0x20]"
  by (simp add: overlay_address_append_def zero_context_def ob_new_def new_subscriber_def
      SID_SIZE_def REACHABLE_SELF_def ob_append_byte_def ob_append_bytes_def ob_makespace_def
      set_previous_def)

text \<open>
  Claim C4, amended. For a subscriber other than the context's sender, the call that
  directly follows a successful \<^verbatim>\<open>overlay_address_append\<close> of the same subscriber with the
  same context appends the single byte \<open>0xFE\<close>. The sender is always written as \<open>0xFF\<close>: with
  sender \<open>S\<close> and \<open>T \<noteq> S\<close>, encoding \<open>S\<close>, \<open>S\<close>, \<open>T\<close> appends \<open>FF FF L\<close> and the first \<open>L\<close> bytes
  of \<open>T\<close>.
\<close>

theorem append_repeats:
  "(sender c \<noteq> Some p \<and> overlay_address_append (Some c) b (Some p) subs = (0, ctxa, ba, subsa) \<and>
    ob_makespace ba 1 \<longrightarrow>
      overlay_address_append ctxa ba (Some p) subsa
        = (0, ctxa, ba\<lparr>ob_bytes := ob_bytes ba @ [0xFE]\<rparr>, subsa)) \<and>
   (sender c = Some S \<and> S \<noteq> T \<and> ob_sizeLimit b = None \<and>
    L = (if send_full (subs ! T) then 32
         else min 32 ((abbreviate_len (subs ! T) + 2) div 2
                      + (if reachable (subs ! T) = REACHABLE_SELF then 1 else 0))) \<longrightarrow>
      (case overlay_address_append (Some c) b (Some S) subs of
         (r1, c1, b1, s1) \<Rightarrow>
           case overlay_address_append c1 b1 (Some S) s1 of
             (r2, c2, b2, s2) \<Rightarrow>
               case overlay_address_append c2 b2 (Some T) s2 of
                 (r3, c3, b3, s3) \<Rightarrow>
                   r1 = 0 \<and> r2 = 0 \<and> r3 = 0 \<and>
                   ob_bytes b3 = ob_bytes b @ [0xFF, 0xFF, of_nat L] @ take L (sid (subs ! T))))"
proof (intro conjI impI)
  assume a: "sender c \<noteq> Some p \<and>
    overlay_address_append (Some c) b (Some p) subs = (0, ctxa, ba, subsa) \<and> ob_makespace ba 1"
  then have c1: "ctxa = Some (c\<lparr>previous := Some p\<rparr>)"
    using append_success_context by blast
  show "overlay_address_append ctxa ba (Some p) subsa
          = (0, ctxa, ba\<lparr>ob_bytes := ob_bytes ba @ [0xFE]\<rparr>, subsa)"
    unfolding c1 using a by (intro append_previous) simp_all
next
  assume a: "sender c = Some S \<and> S \<noteq> T \<and> ob_sizeLimit b = None \<and>
    L = (if send_full (subs ! T) then 32
         else min 32 ((abbreviate_len (subs ! T) + 2) div 2
                      + (if reachable (subs ! T) = REACHABLE_SELF then 1 else 0)))"
  have room: "ob_makespace (b\<lparr>ob_bytes := xs\<rparr>) n" "ob_makespace b n" for xs n
    using a by (simp_all add: ob_makespace_def)
  let ?c1 = "c\<lparr>previous := Some S\<rparr>"
  have 1: "overlay_address_append (Some c) b (Some S) subs
             = (0, Some ?c1, b\<lparr>ob_bytes := ob_bytes b @ [0xff]\<rparr>, subs)"
    using a room by (intro append_self) simp_all
  have 2: "overlay_address_append (Some ?c1) (b\<lparr>ob_bytes := ob_bytes b @ [0xff]\<rparr>) (Some S) subs
             = (0, Some ?c1, b\<lparr>ob_bytes := ob_bytes b @ [0xff, 0xff]\<rparr>, subs)"
    using a room append_self [where c = ?c1 and p = S and b = "b\<lparr>ob_bytes := ob_bytes b @ [0xff]\<rparr>"
        and subs = subs] by simp
  have 3: "overlay_address_append (Some ?c1) (b\<lparr>ob_bytes := ob_bytes b @ [0xff, 0xff]\<rparr>) (Some T) subs
             = (0, set_previous (Some ?c1) T,
                b\<lparr>ob_bytes := ob_bytes b @ [0xff, 0xff] @ of_nat L # take L (sid (subs ! T))\<rparr>,
                if send_full (subs ! T) then subs[T := (subs ! T)\<lparr>send_full := False\<rparr>] else subs)"
    using a room append_literal [where ctx = "Some ?c1" and p = T and L = L and subs = subs
        and b = "b\<lparr>ob_bytes := ob_bytes b @ [0xff, 0xff]\<rparr>"]
    by simp
  show "case overlay_address_append (Some c) b (Some S) subs of
         (r1, c1, b1, s1) \<Rightarrow>
           case overlay_address_append c1 b1 (Some S) s1 of
             (r2, c2, b2, s2) \<Rightarrow>
               case overlay_address_append c2 b2 (Some T) s2 of
                 (r3, c3, b3, s3) \<Rightarrow>
                   r1 = 0 \<and> r2 = 0 \<and> r3 = 0 \<and>
                   ob_bytes b3 = ob_bytes b @ [0xFF, 0xFF, of_nat L] @ take L (sid (subs ! T))"
    by (simp add: 1 2 3)
qed

theorem append_repeats_witness:
  "sender (zero_context\<lparr>sender := Some 0\<rparr>) \<noteq> Some 1 \<and>
   overlay_address_append (Some (zero_context\<lparr>sender := Some 0\<rparr>)) ob_new (Some 1)
       [new_subscriber (0x10 # replicate 31 0) 1, new_subscriber (0x20 # replicate 31 0) 1]
     = (0, Some (zero_context\<lparr>sender := Some 0, previous := Some 1\<rparr>),
        ob_new\<lparr>ob_bytes := [0x01, 0x20]\<rparr>,
        [new_subscriber (0x10 # replicate 31 0) 1, new_subscriber (0x20 # replicate 31 0) 1]) \<and>
   overlay_address_append (Some (zero_context\<lparr>sender := Some 0, previous := Some 1\<rparr>))
       (ob_new\<lparr>ob_bytes := [0x01, 0x20]\<rparr>) (Some 1)
       [new_subscriber (0x10 # replicate 31 0) 1, new_subscriber (0x20 # replicate 31 0) 1]
     = (0, Some (zero_context\<lparr>sender := Some 0, previous := Some 1\<rparr>),
        ob_new\<lparr>ob_bytes := [0x01, 0x20, 0xFE]\<rparr>,
        [new_subscriber (0x10 # replicate 31 0) 1, new_subscriber (0x20 # replicate 31 0) 1]) \<and>
   (case overlay_address_append (Some (zero_context\<lparr>sender := Some 0\<rparr>)) ob_new (Some 0)
           [new_subscriber (0x10 # replicate 31 0) 1, new_subscriber (0x20 # replicate 31 0) 1] of
      (r1, c1, b1, s1) \<Rightarrow>
        case overlay_address_append c1 b1 (Some 0) s1 of
          (r2, c2, b2, s2) \<Rightarrow>
            case overlay_address_append c2 b2 (Some 1) s2 of
              (r3, c3, b3, s3) \<Rightarrow>
                r1 = 0 \<and> r2 = 0 \<and> r3 = 0 \<and> ob_bytes b3 = [0xFF, 0xFF, 0x01, 0x20])"
proof -
  let ?c = "zero_context\<lparr>sender := Some 0\<rparr>"
  let ?c1 = "zero_context\<lparr>sender := Some 0, previous := Some 1\<rparr>"
  let ?subs = "[new_subscriber (0x10 # replicate 31 0) 1, new_subscriber (0x20 # replicate 31 0) 1]"
  have h1: "sender ?c \<noteq> Some 1"
    by simp
  have h2: "overlay_address_append (Some ?c) ob_new (Some 1) ?subs
              = (0, Some ?c1, ob_new\<lparr>ob_bytes := [0x01, 0x20]\<rparr>, ?subs)"
    by (simp add: overlay_address_append_def zero_context_def new_subscriber_def buf_defs
        SID_SIZE_def REACHABLE_SELF_def set_previous_def)
  have h3: "ob_makespace (ob_new\<lparr>ob_bytes := [0x01, 0x20]\<rparr>) 1"
    by (simp add: buf_defs)
  have h4: "sender ?c = Some 0 \<and> (0::nat) \<noteq> 1 \<and> ob_sizeLimit ob_new = None \<and>
    (1::nat) = (if send_full (?subs ! 1) then 32
         else min 32 ((abbreviate_len (?subs ! 1) + 2) div 2
                      + (if reachable (?subs ! 1) = REACHABLE_SELF then 1 else 0)))"
    by (simp add: new_subscriber_def ob_new_def REACHABLE_SELF_def)
  show ?thesis
    using h1 h2 h3 h4
      append_repeats [where c = ?c and p = 1 and b = ob_new and subs = ?subs and ctxa = "Some ?c1"
        and ba = "ob_new\<lparr>ob_bytes := [0x01, 0x20]\<rparr>" and subsa = ?subs and S = 0 and T = 1
        and L = 1]
    by (simp add: new_subscriber_def ob_new_def SID_SIZE_def)
qed

text \<open>
  The claim as stated has \<open>FF FE\<close> for the two emissions of the sender \<open>S\<close>; the code tests
  for the sender first and writes \<open>FF FF\<close>.
\<close>

theorem append_sender_twice:
  "overlay_address_append (Some (zero_context\<lparr>sender := Some 0\<rparr>)) ob_new (Some 0)
       [new_subscriber (0x10 # replicate 31 0) 1, new_subscriber (0x20 # replicate 31 0) 1]
     = (0, Some (zero_context\<lparr>sender := Some 0, previous := Some 0\<rparr>),
        ob_new\<lparr>ob_bytes := [0xFF]\<rparr>,
        [new_subscriber (0x10 # replicate 31 0) 1, new_subscriber (0x20 # replicate 31 0) 1]) \<and>
   overlay_address_append (Some (zero_context\<lparr>sender := Some 0, previous := Some 0\<rparr>))
       (ob_new\<lparr>ob_bytes := [0xFF]\<rparr>) (Some 0)
       [new_subscriber (0x10 # replicate 31 0) 1, new_subscriber (0x20 # replicate 31 0) 1]
     = (0, Some (zero_context\<lparr>sender := Some 0, previous := Some 0\<rparr>),
        ob_new\<lparr>ob_bytes := [0xFF, 0xFF]\<rparr>,
        [new_subscriber (0x10 # replicate 31 0) 1, new_subscriber (0x20 # replicate 31 0) 1]) \<and>
   overlay_address_append (Some (zero_context\<lparr>sender := Some 0, previous := Some 0\<rparr>))
       (ob_new\<lparr>ob_bytes := [0xFF, 0xFF]\<rparr>) (Some 1)
       [new_subscriber (0x10 # replicate 31 0) 1, new_subscriber (0x20 # replicate 31 0) 1]
     = (0, Some (zero_context\<lparr>sender := Some 0, previous := Some 1\<rparr>),
        ob_new\<lparr>ob_bytes := [0xFF, 0xFF, 0x01, 0x20]\<rparr>,
        [new_subscriber (0x10 # replicate 31 0) 1, new_subscriber (0x20 # replicate 31 0) 1])"
  by (simp add: overlay_address_append_def zero_context_def new_subscriber_def buf_defs
      SID_SIZE_def REACHABLE_SELF_def set_previous_def OA_CODE_SELF_def)

section \<open>Encoding, then decoding\<close>

lemma parse_full_literal:
  assumes inv: "dir_inv d" and p: "p < length (subscribers d)"
    and bytes: "ob_bytes ba = pre @ 32 # sid (subscribers d ! p)"
    and pos: "ob_position ba = length pre"
  shows "overlay_address_parse mdp ctx ba (Some v) d
           = Some (0, set_previous ctx p, ba\<lparr>ob_position := length (ob_bytes ba)\<rparr>, Some (Some p), d)"
proof -
  let ?s = "sid (subscribers d ! p)"
  have s: "length ?s = 32" and look: "lookup_node ?s 32 (root d) 0 (subscribers d) = Some p"
    using inv p by (simp_all add: dir_inv_def)
  let ?b1 = "ba\<lparr>ob_position := length pre + 1\<rparr>"
  have get: "ob_get ba = (?b1, 32)"
    using bytes pos by (simp add: ob_get_def)
  have ptr: "ob_get_bytes_ptr ?b1 32 = (ba\<lparr>ob_position := length (ob_bytes ba)\<rparr>, Some ?s)"
    using bytes s by (simp add: ob_get_bytes_ptr_def)
  have found: "find_subscriber d ?s 32 True = (d, Some p)"
    using look by (rule find_subscriber_found)
  have "find_subscr_buffer mdp ctx ?b1 32 (Some v) d
          = Some (0, set_previous ctx p, ba\<lparr>ob_position := length (ob_bytes ba)\<rparr>, Some (Some p), d)"
    unfolding find_subscr_buffer_def using ptr found by (simp add: SID_SIZE_def)
  then show ?thesis
    unfolding overlay_address_parse_def using get
    by (simp add: OA_CODE_SELF_def OA_CODE_PREVIOUS_def)
qed

text \<open>
  Claim C8. Take a subscriber of a directory the program can reach and encode it, with
  an empty context (no sender, no previous subscriber), at the end of a buffer that has
  room. If the length byte written is 32, then decoding the buffer from that position
  under a fresh empty context succeeds and resolves to the same subscriber, and the
  directory is as the encoder left it.
\<close>

theorem encode_decode_full:
  assumes reach: "dir_reach I d" and p: "p < length (subscribers d)"
    and b: "ob_position b = length (ob_bytes b)" and room: "ob_makespace b 33"
    and enc: "overlay_address_append (Some zero_context) b (Some p) (subscribers d)
                = (rc, ctxa, ba, subsa)"
    and full: "ob_bytes ba ! length (ob_bytes b) = 32"
  shows "rc = 0 \<and>
         overlay_address_parse mdp (Some zero_context) ba (Some None) (d\<lparr>subscribers := subsa\<rparr>)
           = Some (0, Some (zero_context\<lparr>previous := Some p\<rparr>),
                   ba\<lparr>ob_position := length (ob_bytes ba)\<rparr>, Some (Some p),
                   d\<lparr>subscribers := subsa\<rparr>)"
proof -
  let ?subs = "subscribers d"
  let ?sp = "?subs ! p"
  define L where "L = (if send_full ?sp then 32
                 else min 32 ((abbreviate_len ?sp + 2) div 2
                              + (if reachable ?sp = REACHABLE_SELF then 1 else 0)))"
  have inv: "dir_inv d"
    using dir_reach_inv [OF reach] by simp
  have L32: "L \<le> 32"
    by (simp add: L_def)
  have ns: "case Some zero_context of None \<Rightarrow> True
            | Some c \<Rightarrow> sender c \<noteq> Some p \<and> previous c \<noteq> Some p"
    by (simp add: zero_context_def)
  have rm: "ob_makespace b (1 + L)"
    using room L32 by (auto simp add: ob_makespace_def split: option.splits)
  have app: "overlay_address_append (Some zero_context) b (Some p) ?subs =
           (0, set_previous (Some zero_context) p,
            b\<lparr>ob_bytes := ob_bytes b @ of_nat L # take L (sid ?sp)\<rparr>,
            if send_full ?sp then ?subs[p := ?sp\<lparr>send_full := False\<rparr>] else ?subs)"
    by (rule append_literal [OF ns L_def rm])
  have rc: "rc = 0" and ba: "ba = b\<lparr>ob_bytes := ob_bytes b @ of_nat L # take L (sid ?sp)\<rparr>"
    and subsa: "subsa = (if send_full ?sp then ?subs[p := ?sp\<lparr>send_full := False\<rparr>] else ?subs)"
    using app enc by simp_all
  have "(of_nat L :: byte) = 32"
    using full ba by simp
  then have "unat (of_nat L :: byte) = unat (32 :: byte)"
    by simp
  then have L: "L = 32"
    using L32 by (simp add: unat_of_nat)
  have s32: "length (sid ?sp) = 32"
    using inv p by (simp add: dir_inv_def)
  let ?d' = "d\<lparr>subscribers := subsa\<rparr>"
  have inv': "dir_inv ?d'"
  proof (cases "send_full ?sp")
    case True
    then show ?thesis
      using subsa dir_inv_update [OF inv p, of "?sp\<lparr>send_full := False\<rparr>"] by simp
  next
    case False
    then show ?thesis
      using subsa inv by simp
  qed
  have p': "p < length (subscribers ?d')"
    using p subsa by simp
  have sid': "sid (subscribers ?d' ! p) = sid ?sp"
    using p subsa by simp
  have bytes: "ob_bytes ba = ob_bytes b @ 32 # sid (subscribers ?d' ! p)"
    using ba L s32 sid' by simp
  have pos: "ob_position ba = length (ob_bytes b)"
    using ba b by simp
  show ?thesis
    using rc parse_full_literal [OF inv' p' bytes pos, of mdp "Some zero_context" None]
    by (simp add: set_previous_def)
qed

theorem encode_decode_full_witness:
  "dir_reach {scen_sid} scen_full_dir \<and>
   0 < length (subscribers scen_full_dir) \<and>
   ob_position ob_new = length (ob_bytes ob_new) \<and> ob_makespace ob_new 33 \<and>
   overlay_address_append (Some zero_context) ob_new (Some 0) (subscribers scen_full_dir)
     = (0, Some (zero_context\<lparr>previous := Some 0\<rparr>), ob_new\<lparr>ob_bytes := 32 # scen_sid\<rparr>,
        [new_subscriber scen_sid 1]) \<and>
   ob_bytes (ob_new\<lparr>ob_bytes := 32 # scen_sid\<rparr>) ! length (ob_bytes ob_new) = 32 \<and>
   overlay_address_parse 2000 (Some zero_context) (ob_new\<lparr>ob_bytes := 32 # scen_sid\<rparr>)
       (Some None) (scen_full_dir\<lparr>subscribers := [new_subscriber scen_sid 1]\<rparr>)
     = Some (0, Some (zero_context\<lparr>previous := Some 0\<rparr>),
             ob_new\<lparr>ob_bytes := 32 # scen_sid, ob_position := 33\<rparr>, Some (Some 0),
             scen_full_dir\<lparr>subscribers := [new_subscriber scen_sid 1]\<rparr>)"
proof -
  let ?d1 = "fst (find_subscriber empty_directory scen_sid SID_SIZE True)"
  have r: "dir_reach (insert scen_sid {}) ?d1"
    by (rule dir_reach.inserted [OF dir_reach.start]) (simp add: scen_sid_def SID_SIZE_def)
  have l: "0 < length (subscribers ?d1)"
    by (simp add: find_eval scen_sid_def)
  have "dir_reach (insert scen_sid {}) (?d1\<lparr>subscribers := (subscribers ?d1)[0 := (subscribers ?d1 ! 0)
           \<lparr>send_full := True, reachable := REACHABLE_NONE, next_hop := None,
            interface := None\<rparr>]\<rparr>)"
    by (rule dir_reach.updated [OF r l])
  then have 1: "dir_reach {scen_sid} scen_full_dir"
    by (simp add: scen_full_dir_def Let_def)
  have subs: "subscribers scen_full_dir = [(new_subscriber scen_sid 1)\<lparr>send_full := True\<rparr>]"
    by (simp add: scen_full_dir_def find_eval scen_sid_def REACHABLE_NONE_def)
  have 2: "0 < length (subscribers scen_full_dir)"
    by (simp add: subs)
  have 3: "ob_position ob_new = length (ob_bytes ob_new)"
    by (simp add: ob_new_def)
  have 4: "ob_makespace ob_new 33"
    by (simp add: ob_makespace_def ob_new_def)
  have 5: "overlay_address_append (Some zero_context) ob_new (Some 0) (subscribers scen_full_dir)
     = (0, Some (zero_context\<lparr>previous := Some 0\<rparr>), ob_new\<lparr>ob_bytes := 32 # scen_sid\<rparr>,
        [new_subscriber scen_sid 1])"
    by (simp add: subs overlay_address_append_def zero_context_def buf_defs new_subscriber_def
        SID_SIZE_def set_previous_def scen_sid_def)
  have 6: "ob_bytes (ob_new\<lparr>ob_bytes := 32 # scen_sid\<rparr>) ! length (ob_bytes ob_new) = 32"
    by (simp add: ob_new_def)
  have len: "length (ob_bytes (ob_new\<lparr>ob_bytes := 32 # scen_sid\<rparr>)) = 33"
    by (simp add: scen_sid_def)
  show ?thesis
    using 1 2 3 4 5 6 encode_decode_full [OF 1 2 3 4 5 6, of 2000]
    by (simp only: len)
qed

section \<open>Properties of the abbreviation cache\<close>

lemma memcmp_first_byte:
  assumes "0 < n" and "a \<noteq> []" and "b \<noteq> []" and "a ! 0 \<noteq> b ! 0"
  shows "memcmp a b n"
proof -
  obtain x xs y ys where ab: "a = x # xs" "b = y # ys"
    using assms(2,3) by (cases a; cases b) auto
  obtain m where n: "n = Suc m"
    using assms(1) by (cases n) auto
  show ?thesis
    using assms(4) by (simp add: memcmp_def ab n)
qed

declare cache_shift_loop.simps [simp del]

lemma cache_shift_loop_drop: "drop_bit (cache_shift_loop n shift) n = 0"
proof (induction n shift rule: cache_shift_loop.induct)
  case (1 n shift)
  show ?case
  proof (cases "drop_bit shift n = 0")
    case True
    then show ?thesis
      by (subst cache_shift_loop.simps) simp
  next
    case False
    then show ?thesis
      using 1 by (subst cache_shift_loop.simps) simp
  qed
qed

text \<open>
  The loop leaves \<open>shift\<close> with \<open>size >> shift = 0\<close>, so \<open>1 << shift\<close> is greater than the size
  and the test that follows calls \<^verbatim>\<open>exit\<close>: the allocation block never returns a cache.
\<close>

lemma cache_alloc_exits: "overlay_abbreviate_cache_alloc CACHE_SIZE = Exit"
proof -
  let ?n = "nat CACHE_SIZE"
  have "?n div 2 ^ cache_shift_loop ?n 0 = 0"
    using cache_shift_loop_drop [of ?n 0] by (simp add: drop_bit_eq_div)
  then have "?n < 2 ^ cache_shift_loop ?n 0"
    by (simp add: div_eq_0_iff)
  then have "push_bit (cache_shift_loop ?n 0) (1 :: nat) \<noteq> ?n"
    by (simp add: push_bit_of_1)
  then show ?thesis
    by (simp add: overlay_abbreviate_cache_alloc_def Let_def)
qed

lemma cache_stays_null:
  "overlay_abbreviate_cache_address CACHE_SIZE None s
     = (if CACHE_SIZE = 0 then Return (0, None) else Exit)"
  by (simp add: overlay_abbreviate_cache_address_def cache_alloc_exits)

lemma expand_null_cache:
  assumes "inp ! 0 \<in> {0x05, 0x06, 0x07, 0x09, 0x0A, 0x0B, 0x0D}"
  shows "overlay_abbreviate_expand_address None prev inp inofs out ofs = None"
  using assms
  by (auto simp add: overlay_abbreviate_expand_address_def overlay_abbreviate_cache_lookup_def)

text \<open>
  Were a cache installed, the lookup would still not resolve a prefix opcode: it compares
  from the opcode byte on, which differs from the first byte of every entry that is empty
  or holds a node ID.
\<close>

lemma prefix_opcode_allocated_cache:
  assumes op: "inp ! 0 \<in> {0x05, 0x06, 0x07, 0x09, 0x0A, 0x0B, 0x0D}"
    and inp: "3 \<le> length inp"
    and idx: "cache_lookup_index cache inp < length (cache_sids cache)"
    and ent: "\<forall>e \<in> set (cache_sids cache). length e = SID_SIZE \<and> (e ! 0 = 0x00 \<or> 0x10 \<le> e ! 0)"
  shows "\<exists>n. overlay_abbreviate_expand_address (Some cache) prev inp inofs out ofs
           = Some (Return (OA_PLEASEEXPLAIN, inofs + n, out, ofs))"
proof -
  let ?e = "cache_sids cache ! cache_lookup_index cache inp"
  have e: "length ?e = SID_SIZE" "?e ! 0 = 0x00 \<or> 0x10 \<le> ?e ! 0"
    using ent idx by (simp_all add: nth_mem)
  have ne: "inp ! 0 \<noteq> ?e ! 0"
    using op e(2) by auto
  have cmp: "memcmp inp ?e n" if "0 < n" for n
    using that inp e(1) ne by (intro memcmp_first_byte) (auto simp add: SID_SIZE_def)
  have look: "overlay_abbreviate_cache_lookup (Some cache) inp out ofs n k
                = Some (OA_PLEASEEXPLAIN, out, ofs)"
    if "0 < n" for n k
    using cmp [OF that] by (simp add: overlay_abbreviate_cache_lookup_def)
  show ?thesis
    using op by (auto simp add: overlay_abbreviate_expand_address_def look)
qed

text \<open>
  Claim C9. The claim is that \<^verbatim>\<open>overlay_abbreviate_expand_address\<close> returns \<^verbatim>\<open>OA_PLEASEEXPLAIN\<close>
  for an input whose first byte is a prefix opcode. The global \<^verbatim>\<open>cache\<close> starts as \<^verbatim>\<open>NULL\<close>
  and \<^verbatim>\<open>overlay_abbreviate_cache_address\<close> never sets it: with a cache size of 0 it returns 0
  at once, and with a cache size of 1024 the allocation block calls \<^verbatim>\<open>exit\<close>. On the input
  \<open>05 10 22 33\<close> with the cache \<^verbatim>\<open>NULL\<close>, \<^verbatim>\<open>overlay_abbreviate_cache_lookup\<close> reads \<^verbatim>\<open>cache->shift\<close>
  and the call does not return a result code.
\<close>

theorem prefix_opcode_null_cache:
  "overlay_abbreviate_cache_address 0 None (0x10 # 0x22 # replicate 30 0x33) = Return (0, None) \<and>
   overlay_abbreviate_cache_address 1024 None (0x10 # 0x22 # replicate 30 0x33) = Exit \<and>
   overlay_abbreviate_expand_address None (replicate 32 0) [0x05, 0x10, 0x22, 0x33] 0
       (replicate 32 0) 0 = None"
  by (simp add: cache_stays_null overlay_abbreviate_expand_address_def
      overlay_abbreviate_cache_lookup_def)

text \<open>
  Claim C10. The slot index of \<^verbatim>\<open>overlay_abbreviate_cache_address\<close> and of
  \<^verbatim>\<open>overlay_abbreviate_cache_lookup\<close> is made of bytes 0 and 2 of the input only: two inputs
  with the same bytes 0 and 2 get the same index in both, whatever their byte 1, so each
  operation on the one input works on the slot of the other.
\<close>

theorem cache_index_ignores_byte_1:
  assumes "a ! 0 = b ! 0" and "a ! 2 = b ! 2"
  shows "cache_address_index cache a = cache_address_index cache b \<and>
         cache_lookup_index cache a = cache_lookup_index cache b \<and>
         overlay_abbreviate_cache_address n (Some cache) a =
           (if \<not> memcmp a (cache_sids cache ! cache_address_index cache b) SID_SIZE
            then Return (1, Some cache)
            else Return (0, Some (cache\<lparr>cache_sids :=
                   (cache_sids cache)[cache_address_index cache b := take SID_SIZE a]\<rparr>))) \<and>
         overlay_abbreviate_cache_lookup (Some cache) a out ofs k m =
           Some (if memcmp a (cache_sids cache ! cache_lookup_index cache b) k
                 then (OA_PLEASEEXPLAIN, out, ofs)
                 else (OA_RESOLVED,
                       bcopy_at (cache_sids cache ! cache_lookup_index cache b) out ofs SID_SIZE,
                       ofs + SID_SIZE))"
  using assms
  by (simp add: cache_address_index_def cache_lookup_index_def
      overlay_abbreviate_cache_address_def overlay_abbreviate_cache_lookup_def)

theorem cache_index_ignores_byte_1_witness:
  "[0x10, 0x22, 0x33 :: byte] ! 0 = [0x10, 0x44, 0x33 :: byte] ! 0 \<and>
   [0x10, 0x22, 0x33 :: byte] ! 2 = [0x10, 0x44, 0x33 :: byte] ! 2 \<and>
   [0x10, 0x22, 0x33 :: byte] ! 1 \<noteq> [0x10, 0x44, 0x33 :: byte] ! 1 \<and>
   cache_address_index \<lparr>cache_size = 4096, cache_shift = 12, cache_sids = replicate 4096 []\<rparr>
       [0x10, 0x22, 0x33]
     = cache_address_index \<lparr>cache_size = 4096, cache_shift = 12, cache_sids = replicate 4096 []\<rparr>
       [0x10, 0x44, 0x33] \<and>
   cache_lookup_index \<lparr>cache_size = 4096, cache_shift = 12, cache_sids = replicate 4096 []\<rparr>
       [0x10, 0x22, 0x33]
     = cache_lookup_index \<lparr>cache_size = 4096, cache_shift = 12, cache_sids = replicate 4096 []\<rparr>
       [0x10, 0x44, 0x33]"
proof -
  have 1: "[0x10, 0x22, 0x33 :: byte] ! 0 = [0x10, 0x44, 0x33 :: byte] ! 0"
    by simp
  have 2: "[0x10, 0x22, 0x33 :: byte] ! 2 = [0x10, 0x44, 0x33 :: byte] ! 2"
    by simp
  have 3: "[0x10, 0x22, 0x33 :: byte] ! 1 \<noteq> [0x10, 0x44, 0x33 :: byte] ! 1"
    by simp
  show ?thesis
    using 1 2 3 cache_index_ignores_byte_1 [OF 1 2] by blast
qed

section \<open>Properties of the requests for explanation\<close>


declare walk_tree.simps [simp del]
































text \<open>
  When no known subscriber matches the prefix, \<^verbatim>\<open>walk_tree\<close> still calls the callback on a
  leaf that lies on the path of the prefix, since it never compares an ID with the prefix.
  In a directory that holds only \<open>Q = 10 99 00 ...\<close>, the path of the prefix \<open>10 22 33\<close> ends at
  the leaf of \<open>Q\<close> after one nibble, and the payload gets the record \<open>(32, Q)\<close> before
  \<open>(3, prefix)\<close>. The comment in \<^verbatim>\<open>find_subscr_buffer\<close> speaks of the subscribers that match
  the abbreviation.
\<close>

lemma explain_reports_unmatched:
  "find_subscriber empty_directory (0x10 # 0x99 # replicate 30 0) 32 True
     = (fst (find_subscriber empty_directory (0x10 # 0x99 # replicate 30 0) 32 True), Some 0) \<and>
   take 3 (0x10 # 0x99 # replicate 30 0 :: byte list) \<noteq> [0x10, 0x22, 0x33] \<and>
   overlay_address_parse 2000 (Some zero_context)
       \<lparr>ob_bytes = [3, 0x10, 0x22, 0x33], ob_position = 0, ob_sizeLimit = None\<rparr> (Some None)
       (fst (find_subscriber empty_directory (0x10 # 0x99 # replicate 30 0) 32 True))
     = Some (0,
         Some \<lparr>invalid_addresses = True,
               please_explain =
                 Some \<lparr>ob_bytes = 32 # (0x10 # 0x99 # replicate 30 0) @ [3, 0x10, 0x22, 0x33],
                        ob_position = 0, ob_sizeLimit = Some 2000\<rparr>,
               sender = None, previous = None\<rparr>,
         \<lparr>ob_bytes = [3, 0x10, 0x22, 0x33], ob_position = 4, ob_sizeLimit = None\<rparr>,
         Some None,
         fst (find_subscriber empty_directory (0x10 # 0x99 # replicate 30 0) 32 True))"
  by code_simp

end
